theory Spec2Isabelle
  imports Complex_Main "HOL-Library.Sublist"
begin

section \<open>Values, dictionaries and errors\<close>

text \<open>
  Attribute values are Python numbers or \<open>None\<close>. Numbers are idealised as reals (the
  engine's own arithmetic is a handful of comparisons, one mean and one rounding), and
  \<open>None\<close> is the \<open>None\<close> of \<open>real option\<close>. A \<open>Dict[str, Any]\<close> holding such values
  is a map into \<open>real option\<close>: \<open>m k = None\<close> says that the key is absent,
  \<open>m k = Some None\<close> that the key is present and holds Python's \<open>None\<close>.
  Attribute ids are ASCII strings.
\<close>

type_synonym pyval = "real option"
type_synonym pydict = "string \<rightharpoonup> pyval"
type_synonym meta = "string \<rightharpoonup> real"

text \<open>
  Every exception the engine can raise or catch. The first four are the \<open>ValueError\<close>s
  of the source, told apart by their message (\<open>NotInList\<close> is the one of \<open>list.index\<close>);
  \<open>NotInSet\<close> is the \<open>KeyError\<close> of \<open>set.remove\<close>; \<open>UserException\<close> is whatever a
  user calculation raises; \<open>OutOfFuel\<close> is not a Python exception: it marks a
  depth-first search that was given too small a recursion budget.
\<close>

datatype error =
    MissingCalculationLogic string
  | CyclesDetected "string list list"
  | UnexpectedCycle "string list"
  | NotInList string
  | NotInSet string
  | UserException string
  | OutOfFuel

text \<open>\<open>context.get(k)\<close>: the value under \<open>k\<close>, \<open>None\<close> when the key is absent.\<close>

definition dict_get :: "pydict \<Rightarrow> string \<Rightarrow> pyval" where
  "dict_get d k = (case d k of None \<Rightarrow> None | Some v \<Rightarrow> v)"

text \<open>
  An insertion-ordered dictionary whose iteration order matters is an association list
  with unique keys; \<open>d[k] = v\<close> overwrites in place or appends.
\<close>

fun dict_set :: "('k \<times> 'v) list \<Rightarrow> 'k \<Rightarrow> 'v \<Rightarrow> ('k \<times> 'v) list" where
  "dict_set [] k v = [(k, v)]"
| "dict_set ((k', v') # kvs) k v =
     (if k' = k then (k, v) # kvs else (k', v') # dict_set kvs k v)"

text \<open>A Python set that is iterated over is a duplicate-free list; \<open>s.add(x)\<close>:\<close>

definition set_add :: "'a list \<Rightarrow> 'a \<Rightarrow> 'a list" where
  "set_add xs x = (if x \<in> set xs then xs else xs @ [x])"

text \<open>\<open>str.lower()\<close> on ASCII, and the substring test \<open>needle in s\<close>.\<close>

definition lower_char :: "char \<Rightarrow> char" where
  "lower_char c =
     (case map_of (zip ''ABCDEFGHIJKLMNOPQRSTUVWXYZ'' ''abcdefghijklmnopqrstuvwxyz'') c of
        None \<Rightarrow> c
      | Some l \<Rightarrow> l)"

definition lower :: "string \<Rightarrow> string" where
  "lower s = map lower_char s"

definition contains :: "string \<Rightarrow> string \<Rightarrow> bool" where
  "contains s needle = sublist needle s"

section \<open>Attributes and blocks\<close>

datatype AttributeType = INPUT | CALCULATED

text \<open>
  A calculation function takes the dictionary of values it is given and the attribute's
  metadata (numbers under string keys), and returns a number or raises.
\<close>

record Attribute =
  attr_ident :: string
  attr_name :: string
  attribute_type :: AttributeType
  attr_value :: pyval
  dependencies :: "string list"
  calculation_logic :: "(pydict \<Rightarrow> meta \<Rightarrow> error + real) option"
  metadata :: meta

text \<open>
  The dictionary comprehension \<open>{dep_id: context.get(dep_id) for dep_id in
  self.dependencies}\<close>, built key by key in the order of the dependency list.
\<close>

definition dep_values :: "Attribute \<Rightarrow> pydict \<Rightarrow> pydict" where
  "dep_values a context =
     foldl (\<lambda>m dep_id. m(dep_id \<mapsto> dict_get context dep_id)) Map.empty (dependencies a)"

text \<open>
  \<open>Attribute.calculate\<close>: the returned value or the raised exception, and the
  attribute afterwards (its \<open>value\<close> is written only when the calculation returned).
\<close>

definition calculate :: "Attribute \<Rightarrow> pydict \<Rightarrow> (error + pyval) \<times> Attribute" where
  "calculate a context =
     (if attribute_type a = INPUT then (Inr (attr_value a), a)
      else case calculation_logic a of
        None \<Rightarrow> (Inl (MissingCalculationLogic (attr_ident a)), a)
      | Some f \<Rightarrow>
          (case f (dep_values a context) (metadata a) of
             Inl e \<Rightarrow> (Inl e, a)
           | Inr r \<Rightarrow> (Inr (Some r), a\<lparr>attr_value := Some r\<rparr>)))"

record Block =
  block_id :: string
  block_name :: string
  attributes :: "(string \<times> Attribute) list"
  block_metadata :: meta

definition add_attribute :: "Block \<Rightarrow> Attribute \<Rightarrow> Block" where
  "add_attribute b a = b\<lparr>attributes := dict_set (attributes b) (attr_ident a) a\<rparr>"

definition get_attribute :: "Block \<Rightarrow> string \<Rightarrow> Attribute option" where
  "get_attribute b k = map_of (attributes b) k"

section \<open>The dependency graph\<close>

text \<open>
  \<open>nodes\<close> is a set that the code iterates over: a duplicate-free list in iteration
  order. \<open>edges\<close> and \<open>reverse_edges\<close> are \<open>defaultdict(set)\<close>: total functions whose
  default is the empty set. An edge leads from a dependency to its dependent.
\<close>

record DependencyGraph =
  nodes :: "string list"
  edges :: "string \<Rightarrow> string list"
  reverse_edges :: "string \<Rightarrow> string list"

definition empty_graph :: DependencyGraph where
  "empty_graph = \<lparr>nodes = [], edges = (\<lambda>_. []), reverse_edges = (\<lambda>_. [])\<rparr>"

definition add_node :: "DependencyGraph \<Rightarrow> string \<Rightarrow> DependencyGraph" where
  "add_node g n = g\<lparr>nodes := set_add (nodes g) n\<rparr>"

definition add_dependency :: "DependencyGraph \<Rightarrow> string \<Rightarrow> string \<Rightarrow> DependencyGraph" where
  "add_dependency g dependent_id dependency_id =
     g\<lparr>nodes := set_add (set_add (nodes g) dependent_id) dependency_id,
       edges := (edges g)(dependency_id := set_add (edges g dependency_id) dependent_id),
       reverse_edges := (reverse_edges g)(dependent_id := set_add (reverse_edges g dependent_id) dependency_id)\<rparr>"

subsection \<open>Cycle detection\<close>

record dfs_state =
  visited :: "string set"
  rec_stack :: "string set"
  cycles :: "string list list"

text \<open>\<open>path.index(node)\<close>; \<open>None\<close> stands for the \<open>ValueError\<close> of a missing element.\<close>

fun index_of :: "'a list \<Rightarrow> 'a \<Rightarrow> nat option" where
  "index_of [] x = None"
| "index_of (y # ys) x = (if y = x then Some 0 else map_option Suc (index_of ys x))"

text \<open>
  The nested function \<open>dfs\<close> of \<open>find_cycles\<close>, with the three variables it closes over
  in a record, and its \<open>for neighbor in self.edges[node]\<close> loop as \<open>dfs_neighbors\<close>.
  The first argument bounds the recursion depth. \<open>path.copy()\<close> is the immutable list
  \<open>path @ [node]\<close>.
\<close>

fun dfs :: "nat \<Rightarrow> DependencyGraph \<Rightarrow> string \<Rightarrow> string list \<Rightarrow> dfs_state \<Rightarrow> error + dfs_state"
and dfs_neighbors ::
  "nat \<Rightarrow> DependencyGraph \<Rightarrow> string list \<Rightarrow> string list \<Rightarrow> dfs_state \<Rightarrow> error + dfs_state"
where
  "dfs 0 g node path st = Inl OutOfFuel"
| "dfs (Suc n) g node path st =
     (if node \<in> rec_stack st then
        (case index_of path node of
           None \<Rightarrow> Inl (NotInList node)
         | Some cycle_start \<Rightarrow>
             Inr (st\<lparr>cycles := cycles st @ [drop cycle_start path @ [node]]\<rparr>))
      else if node \<in> visited st then Inr st
      else
        (case dfs_neighbors n g (edges g node) (path @ [node])
                (st\<lparr>visited := insert node (visited st),
                    rec_stack := insert node (rec_stack st)\<rparr>) of
           Inl e \<Rightarrow> Inl e
         | Inr st' \<Rightarrow>
             (if node \<in> rec_stack st' then Inr (st'\<lparr>rec_stack := rec_stack st' - {node}\<rparr>)
              else Inl (NotInSet node))))"
| "dfs_neighbors n g [] path st = Inr st"
| "dfs_neighbors n g (neighbor # rest) path st =
     (case dfs n g neighbor path st of
        Inl e \<Rightarrow> Inl e
      | Inr st' \<Rightarrow> dfs_neighbors n g rest path st')"

fun find_cycles_from :: "DependencyGraph \<Rightarrow> string list \<Rightarrow> dfs_state \<Rightarrow> error + dfs_state" where
  "find_cycles_from g [] st = Inr st"
| "find_cycles_from g (node # rest) st =
     (if node \<notin> visited st then
        (case dfs (Suc (length (nodes g))) g node [] st of
           Inl e \<Rightarrow> Inl e
         | Inr st' \<Rightarrow> find_cycles_from g rest st')
      else find_cycles_from g rest st)"

definition find_cycles :: "DependencyGraph \<Rightarrow> error + string list list" where
  "find_cycles g =
     (case find_cycles_from g (nodes g) \<lparr>visited = {}, rec_stack = {}, cycles = []\<rparr> of
        Inl e \<Rightarrow> Inl e
      | Inr st \<Rightarrow> Inr (cycles st))"

subsection \<open>Topological sort\<close>

text \<open>\<open>in_degree\<close> is a \<open>defaultdict(int)\<close>: a dictionary read with default \<open>0\<close>.\<close>

definition deg_get :: "(string \<times> int) list \<Rightarrow> string \<Rightarrow> int" where
  "deg_get d k = (case map_of d k of None \<Rightarrow> 0 | Some v \<Rightarrow> v)"

definition init_in_degree :: "string list \<Rightarrow> (string \<times> int) list" where
  "init_in_degree ns = foldl (\<lambda>d node. dict_set d node 0) [] ns"

definition count_incoming :: "DependencyGraph \<Rightarrow> (string \<times> int) list \<Rightarrow> (string \<times> int) list" where
  "count_incoming g d0 =
     foldl (\<lambda>d node. foldl (\<lambda>d' dependency_id. dict_set d' dependency_id (deg_get d' dependency_id + 1))
                         d (edges g node))
       d0 (nodes g)"

text \<open>The inner loop of the \<open>while\<close>: \<open>for dependent in self.edges[node]\<close>.\<close>

fun decrement_dependents ::
  "string list \<Rightarrow> (string \<times> int) list \<times> string list \<Rightarrow> (string \<times> int) list \<times> string list" where
  "decrement_dependents [] s = s"
| "decrement_dependents (dependent_id # rest) (in_degree, queue) =
     (let in_degree' = dict_set in_degree dependent_id (deg_get in_degree dependent_id - 1)
      in decrement_dependents rest
           (in_degree', if deg_get in_degree' dependent_id = 0 then queue @ [dependent_id] else queue))"

definition queue_measure :: "(string \<times> int) list \<times> string list \<Rightarrow> nat" where
  "queue_measure s = length (snd s) + length (filter (\<lambda>kv. 1 \<le> snd kv) (fst s))"

lemma filter_dict_set_le:
  "length (filter (\<lambda>kv. (1::int) \<le> snd kv) (dict_set d k v))
     \<le> length (filter (\<lambda>kv. 1 \<le> snd kv) d) + (if 1 \<le> v then 1 else 0)"
  by (induction d k v rule: dict_set.induct) auto

lemma filter_dict_set_drop:
  "map_of d k = Some (1::int) \<Longrightarrow>
   Suc (length (filter (\<lambda>kv. (1::int) \<le> snd kv) (dict_set d k 0)))
     = length (filter (\<lambda>kv. 1 \<le> snd kv) d)"
  by (induction d k "0::int" rule: dict_set.induct) (auto split: if_splits)

lemma map_of_dict_set: "map_of (dict_set d k v) = (map_of d)(k \<mapsto> v)"
  by (induction d k v rule: dict_set.induct) auto

lemma deg_get_dict_set: "deg_get (dict_set d k v) k' = (if k' = k then v else deg_get d k')"
  by (simp add: deg_get_def map_of_dict_set)

lemma decrement_dependents_measure:
  "queue_measure (decrement_dependents ds s) \<le> queue_measure s"
proof (induction ds s rule: decrement_dependents.induct)
  case (1 s)
  then show ?case by simp
next
  case (2 dependent_id rest in_degree queue)
  let ?v = "deg_get in_degree dependent_id - 1"
  let ?d' = "dict_set in_degree dependent_id ?v"
  let ?q' = "if deg_get ?d' dependent_id = 0 then queue @ [dependent_id] else queue"
  have step: "queue_measure (?d', ?q') \<le> queue_measure (in_degree, queue)"
  proof (cases "?v = 0")
    case True
    then have "deg_get in_degree dependent_id = 1" by simp
    then have "map_of in_degree dependent_id = Some 1"
      by (auto simp: deg_get_def split: option.splits)
    from filter_dict_set_drop[OF this] True show ?thesis
      by (simp add: queue_measure_def deg_get_dict_set)
  next
    case False
    then have q: "?q' = queue" by (simp add: deg_get_dict_set)
    show ?thesis
    proof (cases "1 \<le> ?v")
      case True
      then have "1 \<le> deg_get in_degree dependent_id" by simp
      then obtain w where w: "map_of in_degree dependent_id = Some w" "1 \<le> w"
        by (auto simp: deg_get_def split: option.splits)
      have "length (filter (\<lambda>kv. (1::int) \<le> snd kv) (dict_set in_degree dependent_id v'))
              \<le> length (filter (\<lambda>kv. 1 \<le> snd kv) in_degree)" for v'
        using w by (induction in_degree dependent_id v' rule: dict_set.induct) (auto split: if_splits)
      then show ?thesis using q by (simp add: queue_measure_def)
    next
      case False
      with filter_dict_set_le[of in_degree dependent_id ?v] q show ?thesis
        by (simp add: queue_measure_def)
    qed
  qed
  have "queue_measure (decrement_dependents (dependent_id # rest) (in_degree, queue))
          = queue_measure (decrement_dependents rest (?d', ?q'))"
    by (simp add: Let_def)
  also have "\<dots> \<le> queue_measure (?d', ?q')" using 2 by (simp add: Let_def)
  finally show ?case using step by linarith
qed

text \<open>The \<open>while queue\<close> loop of Kahn's algorithm.\<close>

function kahn_loop ::
  "DependencyGraph \<Rightarrow> string list \<Rightarrow> string list \<Rightarrow> (string \<times> int) list \<Rightarrow> string list" where
  "kahn_loop g [] result in_degree = result"
| "kahn_loop g (node # queue) result in_degree =
     (case decrement_dependents (edges g node) (in_degree, queue) of
        (in_degree', queue') \<Rightarrow> kahn_loop g queue' (result @ [node]) in_degree')"
  by pat_completeness auto
termination
proof (relation "measure (\<lambda>(g, queue, result, in_degree). queue_measure (in_degree, queue))",
       goal_cases)
  case 1
  show ?case by simp
next
  case (2 g node queue result in_degree x y)
  then have eq: "decrement_dependents (edges g node) (in_degree, queue) = (x, y)" by simp
  have "queue_measure (x, y) \<le> queue_measure (in_degree, queue)"
    using decrement_dependents_measure[of "edges g node" "(in_degree, queue)"] eq by simp
  then show ?case
    by (simp add: queue_measure_def)
qed

definition topological_sort :: "DependencyGraph \<Rightarrow> error + string list" where
  "topological_sort g =
     (if nodes g = [] then Inr []
      else case find_cycles g of
        Inl e \<Rightarrow> Inl e
      | Inr found \<Rightarrow>
          (if found \<noteq> [] then Inl (CyclesDetected found)
           else
             (let in_degree = count_incoming g (init_in_degree (nodes g));
                  queue = filter (\<lambda>node. deg_get in_degree node = 0) (nodes g);
                  result = kahn_loop g queue [] in_degree
              in if length result \<noteq> length (nodes g)
                 then Inl (UnexpectedCycle (filter (\<lambda>node. node \<notin> set result) (nodes g)))
                 else Inr result)))"

section \<open>The simulation engine\<close>

text \<open>
  \<open>self.blocks\<close> and each block's \<open>attributes\<close> are insertion-ordered dictionaries
  that the engine iterates over. Attribute objects are held by value in their block; an
  assignment to a field of an attribute rewrites the entry of the dictionary it was
  found in.
\<close>

type_synonym block_dict = "(string \<times> Block) list"

record STKSimulation =
  sim_id :: string
  blocks :: block_dict
  scenario_overrides :: "(string \<times> pyval) list"
  dependency_graph :: DependencyGraph

definition new_simulation :: "string \<Rightarrow> STKSimulation" where
  "new_simulation i =
     \<lparr>sim_id = i, blocks = [], scenario_overrides = [], dependency_graph = empty_graph\<rparr>"

fun find_attribute_by_id :: "block_dict \<Rightarrow> string \<Rightarrow> Attribute option" where
  "find_attribute_by_id [] k = None"
| "find_attribute_by_id ((bk, b) # bs) k =
     (case map_of (attributes b) k of
        Some a \<Rightarrow> Some a
      | None \<Rightarrow> find_attribute_by_id bs k)"

text \<open>Writing back the attribute that \<open>_find_attribute_by_id\<close> returned.\<close>

fun store_attribute :: "block_dict \<Rightarrow> string \<Rightarrow> Attribute \<Rightarrow> block_dict" where
  "store_attribute [] k a = []"
| "store_attribute ((bk, b) # bs) k a =
     (case map_of (attributes b) k of
        Some _ \<Rightarrow> (bk, b\<lparr>attributes := dict_set (attributes b) k a\<rparr>) # bs
      | None \<Rightarrow> (bk, b) # store_attribute bs k a)"

text \<open>
  The loops \<open>for block in self.blocks.values(): for attr in block.attributes.values()\<close>
  visit every attribute object; an object is addressed by its block key and its key in
  the block.
\<close>

definition all_slots :: "block_dict \<Rightarrow> (string \<times> string) list" where
  "all_slots bs = concat (map (\<lambda>(bk, b). map (\<lambda>(ak, a). (bk, ak)) (attributes b)) bs)"

definition all_attributes :: "block_dict \<Rightarrow> Attribute list" where
  "all_attributes bs = concat (map (\<lambda>(bk, b). map snd (attributes b)) bs)"

definition attribute_at :: "block_dict \<Rightarrow> string \<times> string \<Rightarrow> Attribute option" where
  "attribute_at bs slot =
     (case map_of bs (fst slot) of
        None \<Rightarrow> None
      | Some b \<Rightarrow> map_of (attributes b) (snd slot))"

fun store_at :: "block_dict \<Rightarrow> string \<times> string \<Rightarrow> Attribute \<Rightarrow> block_dict" where
  "store_at [] slot a = []"
| "store_at ((bk, b) # bs) slot a =
     (if bk = fst slot then (bk, b\<lparr>attributes := dict_set (attributes b) (snd slot) a\<rparr>) # bs
      else (bk, b) # store_at bs slot a)"

definition add_block :: "STKSimulation \<Rightarrow> Block \<Rightarrow> STKSimulation" where
  "add_block sim block =
     (let bs = dict_set (blocks sim) (block_id block) block;
          attrs = map snd (attributes block);
          g1 = foldl (\<lambda>g attr. add_node g (attr_ident attr)) (dependency_graph sim) attrs;
          g2 = foldl (\<lambda>g attr.
                  if attribute_type attr = CALCULATED then
                    foldl (\<lambda>g' dep_id.
                        if find_attribute_by_id bs dep_id \<noteq> None
                        then add_dependency g' (attr_ident attr) dep_id else g')
                      g (dependencies attr)
                  else g) g1 attrs
      in sim\<lparr>blocks := bs, dependency_graph := g2\<rparr>)"

definition set_scenario_override :: "STKSimulation \<Rightarrow> string \<Rightarrow> pyval \<Rightarrow> STKSimulation" where
  "set_scenario_override sim attribute_id v =
     sim\<lparr>scenario_overrides := dict_set (scenario_overrides sim) attribute_id v\<rparr>"

subsection \<open>The workflow state\<close>

text \<open>
  \<open>error_message\<close> holds \<open>str(e)\<close> of a caught exception or the list of failed
  calculations; \<open>metrics\<close> holds \<open>total_attributes\<close> and \<open>successful_calculations\<close>
  (the timestamp is left out, as is the constant \<open>dependency_graph\<close> entry).
\<close>

datatype message = Raised error | FailedCalculations "string list"

record SimulationState =
  simulation_id :: string
  state_blocks :: "(string \<times> string \<times> nat) list"
  state_overrides :: "(string \<times> pyval) list"
  execution_order :: "string list"
  calculated_values :: "(string \<times> pyval) list"
  cycles_detected :: "string list list"
  status :: string
  error_message :: "message option"
  metrics :: "(nat \<times> nat) option"

subsection \<open>Initialize and DetectCycles\<close>

definition apply_override :: "block_dict \<Rightarrow> string \<times> pyval \<Rightarrow> block_dict" where
  "apply_override bs ov =
     (case find_attribute_by_id bs (fst ov) of
        None \<Rightarrow> bs
      | Some attr \<Rightarrow> store_attribute bs (fst ov) (attr\<lparr>attr_value := snd ov\<rparr>))"

definition initialize_simulation ::
  "block_dict \<Rightarrow> SimulationState \<Rightarrow> block_dict \<times> SimulationState" where
  "initialize_simulation bs state =
     (foldl apply_override bs (state_overrides state), state\<lparr>status := ''initialized''\<rparr>)"

definition detect_cycles :: "DependencyGraph \<Rightarrow> SimulationState \<Rightarrow> error + SimulationState" where
  "detect_cycles g state =
     (case find_cycles g of
        Inl e \<Rightarrow> Inl e
      | Inr found \<Rightarrow>
          Inr (state\<lparr>cycles_detected := found,
                     status := (if found \<noteq> [] then ''cycles_detected'' else ''cycles_clear'')\<rparr>))"

definition route_after_cycle_detection :: "SimulationState \<Rightarrow> string" where
  "route_after_cycle_detection state =
     (if cycles_detected state \<noteq> [] then ''resolve_cycles'' else ''calculate'')"

subsection \<open>The iterative cycle solver\<close>

text \<open>
  The dictionary of every attribute's current non-null value, keyed by the attribute's
  id (a later attribute with the same id overwrites an earlier one).
\<close>

definition current_values :: "block_dict \<Rightarrow> (string \<times> pyval) list" where
  "current_values bs =
     foldl (\<lambda>d a. if attr_value a \<noteq> None then dict_set d (attr_ident a) (attr_value a) else d)
       [] (all_attributes bs)"

definition temp_graph_without :: "DependencyGraph \<Rightarrow> string list \<Rightarrow> DependencyGraph" where
  "temp_graph_without g cycle =
     foldl (\<lambda>tg node.
         foldl (\<lambda>tg' dependent_id.
             if \<not> (node \<in> set cycle \<and> dependent_id \<in> set cycle)
             then add_dependency tg' dependent_id node else tg')
           tg (edges g node))
       (empty_graph\<lparr>nodes := nodes g\<rparr>) (nodes g)"

definition pre_calculate_one ::
  "string list \<Rightarrow> block_dict \<times> pydict \<Rightarrow> string \<Rightarrow> block_dict \<times> pydict" where
  "pre_calculate_one cycle s attr_id =
     (case s of (bs, context) \<Rightarrow>
        if attr_id \<in> set cycle then s
        else case find_attribute_by_id bs attr_id of
          None \<Rightarrow> s
        | Some attr \<Rightarrow>
            if attribute_type attr = INPUT then (bs, context(attr_id \<mapsto> attr_value attr))
            else if calculation_logic attr \<noteq> None then
              (if list_all (\<lambda>dep_id. dep_id \<notin> set cycle \<or> context dep_id \<noteq> None)
                    (dependencies attr)
               then (case calculate attr context of
                       (Inr r, attr') \<Rightarrow>
                         (store_attribute bs attr_id (attr'\<lparr>attr_value := r\<rparr>),
                          context(attr_id \<mapsto> r))
                     | (Inl e, attr') \<Rightarrow> s)
               else s)
            else s)"

definition calculate_non_cyclic_dependencies ::
  "DependencyGraph \<Rightarrow> block_dict \<Rightarrow> string list \<Rightarrow> block_dict" where
  "calculate_non_cyclic_dependencies g bs cycle =
     (case topological_sort (temp_graph_without g cycle) of
        Inl e \<Rightarrow> bs
      | Inr order \<Rightarrow> fst (foldl (pre_calculate_one cycle) (bs, Map.empty) order))"

definition seed_value :: "string \<Rightarrow> real" where
  "seed_value attr_id =
     (if contains (lower attr_id) ''selling_price'' then 50
      else if contains (lower attr_id) ''market_demand'' then 1000
      else 100)"

definition seed_one :: "block_dict \<Rightarrow> string \<Rightarrow> block_dict" where
  "seed_one bs attr_id =
     (case find_attribute_by_id bs attr_id of
        None \<Rightarrow> bs
      | Some attr \<Rightarrow>
          if attr_value attr = None
          then store_attribute bs attr_id (attr\<lparr>attr_value := Some (seed_value attr_id)\<rparr>)
          else bs)"

definition seed_cycle :: "block_dict \<Rightarrow> string list \<Rightarrow> block_dict" where
  "seed_cycle bs cycle = foldl seed_one bs cycle"

type_synonym history = "(string \<times> real list) list"

definition history_of :: "history \<Rightarrow> string \<Rightarrow> real list" where
  "history_of value_history attr_id =
     (case map_of value_history attr_id of None \<Rightarrow> [] | Some h \<Rightarrow> h)"

text \<open>One turn of the loop \<open>for attr_id in cycle\<close> inside an iteration.\<close>

definition iterate_one :: "block_dict \<times> history \<times> bool \<Rightarrow> string \<Rightarrow> block_dict \<times> history \<times> bool" where
  "iterate_one s attr_id =
     (case s of (bs, value_history, converged) \<Rightarrow>
        case find_attribute_by_id bs attr_id of
          None \<Rightarrow> s
        | Some attr \<Rightarrow>
            (case calculation_logic attr of
               None \<Rightarrow> s
             | Some f \<Rightarrow>
                 (case f (map_of (current_values bs)) (metadata attr) of
                    Inl e \<Rightarrow> (bs, value_history, False)
                  | Inr new_value \<Rightarrow>
                      (store_attribute bs attr_id (attr\<lparr>attr_value := Some new_value\<rparr>),
                       dict_set value_history attr_id (history_of value_history attr_id @ [new_value]),
                       (case attr_value attr of
                          None \<Rightarrow> converged
                        | Some previous \<Rightarrow>
                            if \<bar>new_value - previous\<bar> / max \<bar>previous\<bar> (1 / 1000000) > 5 / 100
                            then False else converged)))))"

definition detect_oscillation :: "history \<Rightarrow> nat \<Rightarrow> bool" where
  "detect_oscillation value_history iteration =
     (if iteration < 4 then False
      else list_ex (\<lambda>(attr_id, h).
             length h \<ge> 4 \<and>
             (let recent = drop (length h - 4) h
              in \<bar>recent ! 0 - recent ! 2\<bar> < 1 / 10 \<and> \<bar>recent ! 1 - recent ! 3\<bar> < 1 / 10))
           value_history)"

text \<open>\<open>round(x, 2)\<close> on an exact number: to the nearest hundredth, ties to even.\<close>

definition round_half_even :: "real \<Rightarrow> int" where
  "round_half_even x =
     (let f = \<lfloor>x\<rfloor>; d = x - of_int f
      in if d < 1 / 2 then f else if d > 1 / 2 then f + 1 else if even f then f else f + 1)"

definition round2 :: "real \<Rightarrow> real" where
  "round2 x = of_int (round_half_even (x * 100)) / 100"

definition stabilize_one :: "history \<Rightarrow> block_dict \<Rightarrow> string \<Rightarrow> block_dict" where
  "stabilize_one value_history bs attr_id =
     (case map_of value_history attr_id of
        None \<Rightarrow> bs
      | Some h \<Rightarrow>
          if length h \<ge> 2 then
            (case find_attribute_by_id bs attr_id of
               None \<Rightarrow> bs
             | Some attr \<Rightarrow>
                 (let recent_values = (if length h \<ge> 4 then drop (length h - 4) h else h);
                      stabilized_value = sum_list recent_values / real (length recent_values)
                  in store_attribute bs attr_id (attr\<lparr>attr_value := Some (round2 stabilized_value)\<rparr>)))
          else bs)"

definition stabilize_oscillating_values :: "block_dict \<Rightarrow> string list \<Rightarrow> history \<Rightarrow> block_dict" where
  "stabilize_oscillating_values bs cycle value_history =
     foldl (stabilize_one value_history) bs cycle"

text \<open>
  The loop \<open>for iteration in range(max_iterations)\<close> with its two \<open>break\<close>s, over the
  list of the iteration numbers still to run.
\<close>

fun iterate_cycle :: "nat list \<Rightarrow> string list \<Rightarrow> block_dict \<times> history \<Rightarrow> block_dict" where
  "iterate_cycle [] cycle (bs, value_history) = bs"
| "iterate_cycle (iteration # later) cycle (bs, value_history) =
     (case foldl iterate_one (bs, value_history, True) cycle of
        (bs', value_history', converged) \<Rightarrow>
          if converged then bs'
          else if iteration \<ge> 3 then
            (if detect_oscillation value_history' iteration
             then stabilize_oscillating_values bs' cycle value_history'
             else iterate_cycle later cycle (bs', value_history'))
          else iterate_cycle later cycle (bs', value_history'))"

definition post_calculate_one :: "block_dict \<times> pydict \<Rightarrow> string \<times> string \<Rightarrow> block_dict \<times> pydict" where
  "post_calculate_one s slot =
     (case s of (bs, context) \<Rightarrow>
        case attribute_at bs slot of
          None \<Rightarrow> s
        | Some attr \<Rightarrow>
            if calculation_logic attr \<noteq> None then
              (case calculate attr context of
                 (Inr r, attr') \<Rightarrow>
                   (store_at bs slot (attr'\<lparr>attr_value := r\<rparr>), context(attr_ident attr \<mapsto> r))
               | (Inl e, attr') \<Rightarrow> s)
            else s)"

definition calculate_post_cycle_dependencies :: "block_dict \<Rightarrow> string list \<Rightarrow> block_dict" where
  "calculate_post_cycle_dependencies bs cycle =
     (let context = map_of (current_values bs);
          dependent_attrs =
            filter (\<lambda>slot. case attribute_at bs slot of
                       None \<Rightarrow> False
                     | Some attr \<Rightarrow>
                         attr_ident attr \<notin> set cycle \<and> attribute_type attr = CALCULATED \<and>
                         list_ex (\<lambda>dep_id. dep_id \<in> set cycle) (dependencies attr))
              (all_slots bs)
      in fst (foldl post_calculate_one (bs, context) dependent_attrs))"

definition resolve_cycle_iteratively ::
  "DependencyGraph \<Rightarrow> block_dict \<Rightarrow> string list \<Rightarrow> block_dict" where
  "resolve_cycle_iteratively g bs cycle =
     (let bs1 = calculate_non_cyclic_dependencies g bs cycle;
          bs2 = seed_cycle bs1 cycle;
          bs3 = iterate_cycle [0..<10] cycle (bs2, [])
      in calculate_post_cycle_dependencies bs3 cycle)"

definition resolve_cycles ::
  "DependencyGraph \<Rightarrow> block_dict \<Rightarrow> SimulationState \<Rightarrow> block_dict \<times> SimulationState" where
  "resolve_cycles g bs state =
     (foldl (resolve_cycle_iteratively g) bs (cycles_detected state),
      state\<lparr>cycles_detected := [], status := ''cycles_resolved''\<rparr>)"

subsection \<open>Calculate and Validate\<close>

definition default_value :: "string \<Rightarrow> real" where
  "default_value attr_id =
     (if contains (lower attr_id) ''price'' then 50
      else if contains (lower attr_id) ''demand'' then 1000
      else if contains (lower attr_id) ''margin'' then 20
      else 0)"

text \<open>
  The dependencies that are missing from the context or hold \<open>None\<close> there, and the
  context after \<open>0\<close> has been stored for those that are not keys of it.
\<close>

definition missing_deps :: "pydict \<Rightarrow> string list \<Rightarrow> string list" where
  "missing_deps context deps =
     filter (\<lambda>dep_id. context dep_id = None \<or> context dep_id = Some None) deps"

definition fill_missing :: "pydict \<Rightarrow> string list \<Rightarrow> pydict" where
  "fill_missing context missing =
     foldl (\<lambda>c dep_id. if c dep_id = None then c(dep_id \<mapsto> Some 0) else c) context missing"

text \<open>
  One turn of the loop \<open>for attr_id in execution_order\<close> of the acyclic pass, on the
  blocks, \<open>calculated_values\<close> and \<open>context\<close>. The last case is the \<open>except\<close> branch.
\<close>

definition calculate_one ::
  "block_dict \<times> (string \<times> pyval) list \<times> pydict \<Rightarrow> string
     \<Rightarrow> block_dict \<times> (string \<times> pyval) list \<times> pydict" where
  "calculate_one s attr_id =
     (case s of (bs, values, context) \<Rightarrow>
        case find_attribute_by_id bs attr_id of
          None \<Rightarrow> s
        | Some attr \<Rightarrow>
            if attribute_type attr = INPUT then
              (bs, dict_set values attr_id (attr_value attr), context(attr_id \<mapsto> attr_value attr))
            else
              (let context' = fill_missing context (missing_deps context (dependencies attr))
               in case calculate attr context' of
                    (Inr r, attr') \<Rightarrow>
                      (store_attribute bs attr_id attr', dict_set values attr_id r,
                       context'(attr_id \<mapsto> r))
                  | (Inl e, attr') \<Rightarrow>
                      (bs, dict_set values attr_id (Some (default_value attr_id)),
                       context'(attr_id \<mapsto> Some (default_value attr_id)))))"

definition calculate_attributes ::
  "DependencyGraph \<Rightarrow> block_dict \<Rightarrow> SimulationState \<Rightarrow> block_dict \<times> SimulationState" where
  "calculate_attributes g bs state =
     (if status state = ''cycles_resolved'' then
        (bs, state\<lparr>calculated_values := current_values bs, status := ''calculated''\<rparr>)
      else case topological_sort g of
        Inl e \<Rightarrow> (bs, state\<lparr>error_message := Some (Raised e), status := ''calculation_failed''\<rparr>)
      | Inr order \<Rightarrow>
          (case foldl calculate_one (bs, [], Map.empty) order of
             (bs', values, context) \<Rightarrow>
               (bs', state\<lparr>execution_order := order, calculated_values := values,
                          status := ''calculated''\<rparr>)))"

definition validate_results :: "SimulationState \<Rightarrow> SimulationState" where
  "validate_results state =
     (let validation_metrics =
            (length (calculated_values state),
             length (filter (\<lambda>kv. snd kv \<noteq> None) (calculated_values state)));
          state1 = state\<lparr>metrics := Some validation_metrics\<rparr>;
          failed_calculations = map fst (filter (\<lambda>kv. snd kv = None) (calculated_values state))
      in if failed_calculations \<noteq> []
         then state1\<lparr>status := ''validation_failed'',
                     error_message := Some (FailedCalculations failed_calculations)\<rparr>
         else state1\<lparr>status := ''completed''\<rparr>)"

subsection \<open>Running the workflow\<close>

text \<open>
  The compiled graph runs \<open>initialize\<close>, \<open>detect_cycles\<close>, then \<open>resolve_cycles\<close> when
  the router says so, then \<open>calculate\<close> and \<open>validate\<close>. An exception of a node leaves
  the workflow; the attributes keep what the nodes before it wrote.
\<close>

definition workflow_from_detect_cycles ::
  "DependencyGraph \<Rightarrow> block_dict \<Rightarrow> SimulationState \<Rightarrow> block_dict \<times> (error + SimulationState)" where
  "workflow_from_detect_cycles g bs1 state1 =
     (case detect_cycles g state1 of
        Inl e \<Rightarrow> (bs1, Inl e)
      | Inr state2 \<Rightarrow>
          (case (if route_after_cycle_detection state2 = ''resolve_cycles''
                 then resolve_cycles g bs1 state2 else (bs1, state2)) of
             (bs3, state3) \<Rightarrow>
               (case calculate_attributes g bs3 state3 of
                  (bs4, state4) \<Rightarrow> (bs4, Inr (validate_results state4)))))"

definition workflow ::
  "DependencyGraph \<Rightarrow> block_dict \<Rightarrow> SimulationState \<Rightarrow> block_dict \<times> (error + SimulationState)" where
  "workflow g bs state0 =
     (case initialize_simulation bs state0 of
        (bs1, state1) \<Rightarrow> workflow_from_detect_cycles g bs1 state1)"

text \<open>
  The dictionary returned by \<open>run_simulation\<close> (without \<open>execution_time\<close>); a key that
  the dictionary of the \<open>except\<close> branch does not have is \<open>None\<close>.
\<close>

record run_result =
  result_simulation_id :: string
  result_status :: string
  result_calculated_values :: "(string \<times> pyval) list option"
  result_cycles_resolved :: "nat option"
  result_metrics :: "(nat \<times> nat) option option"
  result_error_message :: "message option"

definition initial_state :: "STKSimulation \<Rightarrow> SimulationState" where
  "initial_state sim =
     \<lparr>simulation_id = sim_id sim,
      state_blocks = map (\<lambda>(bk, b). (bk, block_name b, length (attributes b))) (blocks sim),
      state_overrides = scenario_overrides sim,
      execution_order = [],
      calculated_values = [],
      cycles_detected = [],
      status = ''starting'',
      error_message = None,
      metrics = None\<rparr>"

definition run_simulation :: "STKSimulation \<Rightarrow> STKSimulation \<times> run_result" where
  "run_simulation sim =
     (let initial = initial_state sim
      in case workflow (dependency_graph sim) (blocks sim) initial of
           (bs, Inr final_state) \<Rightarrow>
             (sim\<lparr>blocks := bs\<rparr>,
              \<lparr>result_simulation_id = sim_id sim,
               result_status = status final_state,
               result_calculated_values = Some (calculated_values final_state),
               result_cycles_resolved = Some (length (cycles_detected initial)),
               result_metrics = Some (metrics final_state),
               result_error_message = error_message final_state\<rparr>)
         | (bs, Inl e) \<Rightarrow>
             (sim\<lparr>blocks := bs\<rparr>,
              \<lparr>result_simulation_id = sim_id sim,
               result_status = ''failed'',
               result_calculated_values = None,
               result_cycles_resolved = None,
               result_metrics = None,
               result_error_message = Some (Raised e)\<rparr>))"

section \<open>Vocabulary of the properties\<close>

text \<open>
  The edge relation of a graph, and the shape of every graph that \<open>add_node\<close> and
  \<open>add_dependency\<close> can build: the node list and each edge list are duplicate-free
  (they are sets), and both ends of every edge are nodes.
\<close>

definition edge_rel :: "DependencyGraph \<Rightarrow> (string \<times> string) set" where
  "edge_rel g = {(u, v). v \<in> set (edges g u)}"

definition wf_graph :: "DependencyGraph \<Rightarrow> bool" where
  "wf_graph g \<longleftrightarrow>
     distinct (nodes g) \<and>
     (\<forall>u. distinct (edges g u)) \<and>
     (\<forall>u. \<forall>v \<in> set (edges g u). u \<in> set (nodes g) \<and> v \<in> set (nodes g))"

fun follows_edges :: "DependencyGraph \<Rightarrow> string list \<Rightarrow> bool" where
  "follows_edges g [] = True"
| "follows_edges g [x] = True"
| "follows_edges g (x # y # rest) = (y \<in> set (edges g x) \<and> follows_edges g (y # rest))"

definition is_cycle :: "DependencyGraph \<Rightarrow> string list \<Rightarrow> bool" where
  "is_cycle g c \<longleftrightarrow> 2 \<le> length c \<and> follows_edges g c \<and> last c = hd c"

definition finished_ok :: "DependencyGraph \<Rightarrow> dfs_state \<Rightarrow> bool" where
  "finished_ok g st \<longleftrightarrow>
     (\<forall>u \<in> visited st - rec_stack st.
        (\<forall>v \<in> set (edges g u). v \<in> visited st - rec_stack st) \<and> (u, u) \<notin> (edge_rel g)\<^sup>+)"

text \<open>
  The predecessors of \<open>v\<close> that Kahn's algorithm has not yet put into its result, and
  the invariant of its \<open>while\<close> loop.
\<close>

definition unprocessed_preds :: "DependencyGraph \<Rightarrow> string list \<Rightarrow> string \<Rightarrow> string list" where
  "unprocessed_preds g result v =
     filter (\<lambda>u. v \<in> set (edges g u) \<and> u \<notin> set result) (nodes g)"

definition kahn_inv ::
  "DependencyGraph \<Rightarrow> string list \<Rightarrow> string list \<Rightarrow> (string \<times> int) list \<Rightarrow> bool" where
  "kahn_inv g queue result in_degree \<longleftrightarrow>
     distinct (result @ queue) \<and> set (result @ queue) \<subseteq> set (nodes g) \<and>
     (\<forall>v. deg_get in_degree v = int (length (unprocessed_preds g result v))) \<and>
     (\<forall>v \<in> set (nodes g). v \<in> set (result @ queue) \<longleftrightarrow> deg_get in_degree v = 0) \<and>
     (\<forall>i < length result. \<forall>u. result ! i \<in> set (edges g u) \<longrightarrow> u \<in> set (take i result))"

text \<open>The last four entries of a history, or all of it when it has fewer.\<close>

definition last_up_to_4 :: "real list \<Rightarrow> real list" where
  "last_up_to_4 h = (if 4 \<le> length h then drop (length h - 4) h else h)"

text \<open>
  Two attributes that differ at most in their value, and not at all when they are
  inputs; two block dictionaries in which every id finds such a pair.
\<close>

definition same_attribute :: "Attribute \<Rightarrow> Attribute \<Rightarrow> bool" where
  "same_attribute a a' \<longleftrightarrow>
     a' = a\<lparr>attr_value := attr_value a'\<rparr> \<and> (attribute_type a = INPUT \<longrightarrow> a' = a)"

definition same_inputs :: "block_dict \<Rightarrow> block_dict \<Rightarrow> bool" where
  "same_inputs bs bs' \<longleftrightarrow>
     (\<forall>k. rel_option same_attribute (find_attribute_by_id bs k) (find_attribute_by_id bs' k))"

section \<open>Example models\<close>

text \<open>The acyclic model of the repository's basic test: two inputs and their sum.\<close>

definition ex_input_a :: Attribute where
  "ex_input_a =
     \<lparr>attr_ident = ''input_a'', attr_name = ''Input A'', attribute_type = INPUT,
      attr_value = Some 10, dependencies = [], calculation_logic = None, metadata = Map.empty\<rparr>"

definition ex_input_b :: Attribute where
  "ex_input_b =
     \<lparr>attr_ident = ''input_b'', attr_name = ''Input B'', attribute_type = INPUT,
      attr_value = Some 20, dependencies = [], calculation_logic = None, metadata = Map.empty\<rparr>"

text \<open>
  \<open>lambda deps, meta: deps.get("input_a", 0) + deps.get("input_b", 0)\<close>: a key that is
  present with \<open>None\<close> makes the addition raise \<open>TypeError\<close>.
\<close>

definition ex_sum :: "pydict \<Rightarrow> meta \<Rightarrow> error + real" where
  "ex_sum deps m =
     (case (case deps ''input_a'' of None \<Rightarrow> Some 0 | Some v \<Rightarrow> v,
            case deps ''input_b'' of None \<Rightarrow> Some 0 | Some v \<Rightarrow> v) of
        (Some x, Some y) \<Rightarrow> Inr (x + y)
      | _ \<Rightarrow> Inl (UserException ''TypeError''))"

definition ex_output_c :: Attribute where
  "ex_output_c =
     \<lparr>attr_ident = ''output_c'', attr_name = ''Output C'', attribute_type = CALCULATED,
      attr_value = None, dependencies = [''input_a'', ''input_b''],
      calculation_logic = Some ex_sum, metadata = Map.empty\<rparr>"

definition ex_block :: Block where
  "ex_block =
     \<lparr>block_id = ''test_001'', block_name = ''Test Block'', attributes = [],
      block_metadata = Map.empty\<rparr>"

text \<open>
  The cyclic model of the repository's basic test: \<open>attr_a = attr_b * 1.1\<close> and
  \<open>attr_b = attr_a * 0.9\<close>, each written with \<open>deps.get(key, default)\<close>.
\<close>

definition ex_scaled :: "string \<Rightarrow> real \<Rightarrow> real \<Rightarrow> pydict \<Rightarrow> meta \<Rightarrow> error + real" where
  "ex_scaled k dflt factor deps m =
     (case deps k of
        None \<Rightarrow> Inr (dflt * factor)
      | Some None \<Rightarrow> Inl (UserException ''TypeError'')
      | Some (Some x) \<Rightarrow> Inr (x * factor))"

definition ex_attr_a :: Attribute where
  "ex_attr_a =
     \<lparr>attr_ident = ''attr_a'', attr_name = ''Attribute A'', attribute_type = CALCULATED,
      attr_value = None, dependencies = [''attr_b''],
      calculation_logic = Some (ex_scaled ''attr_b'' 50 (11 / 10)), metadata = Map.empty\<rparr>"

definition ex_attr_b :: Attribute where
  "ex_attr_b =
     \<lparr>attr_ident = ''attr_b'', attr_name = ''Attribute B'', attribute_type = CALCULATED,
      attr_value = None, dependencies = [''attr_a''],
      calculation_logic = Some (ex_scaled ''attr_a'' 100 (9 / 10)), metadata = Map.empty\<rparr>"

definition ex_cycle_sim :: STKSimulation where
  "ex_cycle_sim =
     add_block (new_simulation ''test_cycle'')
       (add_attribute (add_attribute
          \<lparr>block_id = ''cycle_001'', block_name = ''Cycle Test Block'', attributes = [],
           block_metadata = Map.empty\<rparr> ex_attr_a) ex_attr_b)"

definition ex_simple_sim :: STKSimulation where
  "ex_simple_sim =
     add_block (new_simulation ''test_simple'')
       (add_attribute (add_attribute (add_attribute ex_block ex_input_a) ex_input_b) ex_output_c)"



text \<open>The acyclic model with an override of an input and an override of an unknown id.\<close>

definition ex_override_sim :: STKSimulation where
  "ex_override_sim =
     set_scenario_override (set_scenario_override ex_simple_sim ''input_a'' (Some 7))
       ''ghost'' (Some 1)"

text \<open>
  A cycle of two attributes: \<open>osc\<close> flips between 0 and 100 on every calculation;
  \<open>once\<close> returns 0.123 while its own value is the seed and raises afterwards.
\<close>

definition ex_flip :: "pydict \<Rightarrow> meta \<Rightarrow> error + real" where
  "ex_flip deps m =
     (case deps ''osc'' of
        Some (Some x) \<Rightarrow> Inr (100 - x)
      | _ \<Rightarrow> Inl (UserException ''KeyError''))"

definition ex_once :: "pydict \<Rightarrow> meta \<Rightarrow> error + real" where
  "ex_once deps m =
     (case deps ''once'' of
        Some (Some x) \<Rightarrow> if x = 100 then Inr (123 / 1000) else Inl (UserException ''ValueError'')
      | _ \<Rightarrow> Inl (UserException ''KeyError''))"

definition ex_osc_sim :: STKSimulation where
  "ex_osc_sim =
     add_block (new_simulation ''oscillation'')
       (add_attribute (add_attribute
          \<lparr>block_id = ''osc_001'', block_name = ''Oscillation'', attributes = [],
           block_metadata = Map.empty\<rparr>
          \<lparr>attr_ident = ''osc'', attr_name = ''Oscillating'', attribute_type = CALCULATED,
           attr_value = None, dependencies = [''once''],
           calculation_logic = Some ex_flip, metadata = Map.empty\<rparr>)
          \<lparr>attr_ident = ''once'', attr_name = ''Computed once'', attribute_type = CALCULATED,
           attr_value = None, dependencies = [''osc''],
           calculation_logic = Some ex_once, metadata = Map.empty\<rparr>)"

section \<open>Properties\<close>

subsection \<open>Dictionaries and attribute lookup\<close>

lemmas string_eval = contains_def lower_def lower_char_def sublist_code(3)

lemma foldl_map_upd:
  "foldl (\<lambda>m k. m(k \<mapsto> h k)) m0 ks = (\<lambda>k. if k \<in> set ks then Some (h k) else m0 k)"
  by (induction ks arbitrary: m0) (auto simp: fun_eq_iff)

lemma dep_values_eq:
  "dep_values a context =
     (\<lambda>k. if k \<in> set (dependencies a) then Some (dict_get context k) else None)"
  unfolding dep_values_def by (simp add: foldl_map_upd)

lemma dict_set_keys:
  "map fst (dict_set d k v) = (if k \<in> set (map fst d) then map fst d else map fst d @ [k])"
  by (induction d k v rule: dict_set.induct) auto

lemma dict_set_fresh: "k \<notin> fst ` set d \<Longrightarrow> dict_set d k v = d @ [(k, v)]"
  by (induction d k v rule: dict_set.induct) auto

lemma find_store_attribute:
  "find_attribute_by_id (store_attribute bs k a) k' =
     (if k' = k \<and> find_attribute_by_id bs k \<noteq> None then Some a
      else find_attribute_by_id bs k')"
  by (induction bs k a rule: store_attribute.induct)
     (auto simp: map_of_dict_set split: option.splits)

lemma find_append:
  "find_attribute_by_id (bs @ bs') k =
     (case find_attribute_by_id bs k of Some a \<Rightarrow> Some a | None \<Rightarrow> find_attribute_by_id bs' k)"
  by (induction bs k rule: find_attribute_by_id.induct) (auto split: option.splits)

subsection \<open>The dependency map handed to a calculation\<close>

text \<open>
  Claim C10. When \<open>Attribute.calculate\<close> runs the calculation function of a calculated
  attribute, the function is applied to a dependency map whose keys are exactly the
  attribute's declared dependencies; each key holds what \<open>context.get\<close> returns for it,
  which is \<open>None\<close> when the context has no entry for the key.
\<close>

theorem calculate_passes_declared_dependencies:
  "attribute_type a = CALCULATED \<Longrightarrow> calculation_logic a = Some f \<Longrightarrow>
   fst (calculate a context) =
     (case f (dep_values a context) (metadata a) of Inl e \<Rightarrow> Inl e | Inr r \<Rightarrow> Inr (Some r)) \<and>
   dom (dep_values a context) = set (dependencies a) \<and>
   (\<forall>dep_id \<in> set (dependencies a).
      dep_values a context dep_id = Some (dict_get context dep_id)) \<and>
   (\<forall>dep_id \<in> set (dependencies a).
      context dep_id = None \<longrightarrow> dep_values a context dep_id = Some None)"
  by (auto simp: calculate_def dep_values_eq dict_get_def dom_def split: sum.splits)

theorem calculate_passes_declared_dependencies_witness:
  "attribute_type ex_output_c = CALCULATED \<and> calculation_logic ex_output_c = Some ex_sum \<and>
   fst (calculate ex_output_c [''input_a'' \<mapsto> Some 10]) = Inl (UserException ''TypeError'') \<and>
   dom (dep_values ex_output_c [''input_a'' \<mapsto> Some 10]) = {''input_a'', ''input_b''} \<and>
   dep_values ex_output_c [''input_a'' \<mapsto> Some 10] ''input_b'' = Some None"
  using calculate_passes_declared_dependencies[of ex_output_c ex_sum "[''input_a'' \<mapsto> Some 10]"]
  by (simp add: ex_output_c_def ex_sum_def dict_get_def)

subsection \<open>Registering an id twice\<close>

lemma attribute_at_append_fresh:
  "bid \<notin> fst ` set bs \<Longrightarrow>
   attribute_at (bs @ [(bid, b)]) (bid, k) = map_of (attributes b) k"
proof -
  assume "bid \<notin> fst ` set bs"
  then have "map_of bs bid = None" by (simp add: map_of_eq_None_iff)
  then show ?thesis by (simp add: attribute_at_def map_add_def)
qed

lemma blocks_add_block: "blocks (add_block sim new) = dict_set (blocks sim) (block_id new) new"
  by (simp add: add_block_def Let_def)

text \<open>
  Claim C6, as amended. Registering a second attribute under an id that is already
  registered raises nothing. Within one block \<open>add_attribute\<close> stores the new attribute
  under the id, in the place of the old one, and leaves every other id alone. Across
  blocks \<open>add_block\<close> keeps both attributes: a block with a new block id is appended
  to the blocks as it is, every attribute of it is found in it under its key, and a
  lookup by id returns the attribute of the earliest registered block that has the id,
  so an id that was registered before still finds the old attribute and an id that is
  new finds the attribute of the new block.
\<close>

theorem duplicate_registration_replaces_or_shadows:
  "get_attribute (add_attribute b a) (attr_ident a) = Some a \<and>
   (k \<noteq> attr_ident a \<longrightarrow> get_attribute (add_attribute b a) k = get_attribute b k) \<and>
   (attr_ident a \<in> fst ` set (attributes b) \<longrightarrow>
      map fst (attributes (add_attribute b a)) = map fst (attributes b)) \<and>
   (find_attribute_by_id (blocks sim) k' = Some a' \<and> block_id new \<notin> fst ` set (blocks sim) \<longrightarrow>
      find_attribute_by_id (blocks (add_block sim new)) k' = Some a') \<and>
   (block_id new \<notin> fst ` set (blocks sim) \<longrightarrow>
      blocks (add_block sim new) = blocks sim @ [(block_id new, new)] \<and>
      (\<forall>ak. attribute_at (blocks (add_block sim new)) (block_id new, ak)
              = map_of (attributes new) ak) \<and>
      (\<forall>ak. find_attribute_by_id (blocks (add_block sim new)) ak
              = (case find_attribute_by_id (blocks sim) ak of
                   Some old \<Rightarrow> Some old
                 | None \<Rightarrow> map_of (attributes new) ak)))"
proof -
  have within: "get_attribute (add_attribute b a) (attr_ident a) = Some a \<and>
     (k \<noteq> attr_ident a \<longrightarrow> get_attribute (add_attribute b a) k = get_attribute b k) \<and>
     (attr_ident a \<in> fst ` set (attributes b) \<longrightarrow>
        map fst (attributes (add_attribute b a)) = map fst (attributes b))"
    by (auto simp: get_attribute_def add_attribute_def map_of_dict_set dict_set_keys)
  have across: "blocks (add_block sim new) = blocks sim @ [(block_id new, new)] \<and>
      (\<forall>ak. attribute_at (blocks (add_block sim new)) (block_id new, ak)
              = map_of (attributes new) ak) \<and>
      (\<forall>ak. find_attribute_by_id (blocks (add_block sim new)) ak
              = (case find_attribute_by_id (blocks sim) ak of
                   Some old \<Rightarrow> Some old
                 | None \<Rightarrow> map_of (attributes new) ak))"
    if fresh: "block_id new \<notin> fst ` set (blocks sim)"
  proof -
    have e: "blocks (add_block sim new) = blocks sim @ [(block_id new, new)]"
      unfolding blocks_add_block by (rule dict_set_fresh[OF fresh])
    have g: "find_attribute_by_id (blocks sim @ [(block_id new, new)]) ak
               = (case find_attribute_by_id (blocks sim) ak of
                    Some old \<Rightarrow> Some old
                  | None \<Rightarrow> map_of (attributes new) ak)" for ak
      by (cases "find_attribute_by_id (blocks sim) ak")
         (simp_all add: find_append split: option.splits)
    have h: "attribute_at (blocks sim @ [(block_id new, new)]) (block_id new, ak)
               = map_of (attributes new) ak" for ak
      by (rule attribute_at_append_fresh[OF fresh])
    show ?thesis unfolding e using g h by blast
  qed
  have shadow: "find_attribute_by_id (blocks (add_block sim new)) k' = Some a'"
    if "find_attribute_by_id (blocks sim) k' = Some a'" "block_id new \<notin> fst ` set (blocks sim)"
  proof -
    from across[OF that(2)]
    have "find_attribute_by_id (blocks (add_block sim new)) k'
            = (case find_attribute_by_id (blocks sim) k' of
                 Some old \<Rightarrow> Some old
               | None \<Rightarrow> map_of (attributes new) k')"
      by blast
    then show ?thesis using that(1) by (simp only: option.case)
  qed
  show ?thesis using within across shadow by blast
qed

theorem duplicate_registration_replaces_or_shadows_witness:
  "''input_b'' \<noteq> attr_ident (ex_input_a\<lparr>attr_value := Some 99\<rparr>) \<and>
   attr_ident (ex_input_a\<lparr>attr_value := Some 99\<rparr>)
     \<in> fst ` set (attributes (add_attribute (add_attribute ex_block ex_input_a) ex_input_b)) \<and>
   find_attribute_by_id
     (blocks (add_block (new_simulation ''sim'') (add_attribute ex_block ex_input_a)))
     ''input_a'' = Some ex_input_a \<and>
   ''test_002'' \<notin> fst ` set (blocks (add_block (new_simulation ''sim'')
                                        (add_attribute ex_block ex_input_a))) \<and>
   get_attribute (add_attribute (add_attribute (add_attribute ex_block ex_input_a) ex_input_b)
                    (ex_input_a\<lparr>attr_value := Some 99\<rparr>)) ''input_b'' = Some ex_input_b \<and>
   map fst (attributes (add_attribute (add_attribute (add_attribute ex_block ex_input_a) ex_input_b)
                    (ex_input_a\<lparr>attr_value := Some 99\<rparr>))) = [''input_a'', ''input_b''] \<and>
   find_attribute_by_id
     (blocks (add_block (add_block (new_simulation ''sim'') (add_attribute ex_block ex_input_a))
                (add_attribute (ex_block\<lparr>block_id := ''test_002''\<rparr>)
                   (ex_input_a\<lparr>attr_value := Some 99\<rparr>))))
     ''input_a'' = Some ex_input_a \<and>
   attribute_at
     (blocks (add_block (add_block (new_simulation ''sim'') (add_attribute ex_block ex_input_a))
                (add_attribute (ex_block\<lparr>block_id := ''test_002''\<rparr>)
                   (ex_input_a\<lparr>attr_value := Some 99\<rparr>))))
     (''test_002'', ''input_a'') = Some (ex_input_a\<lparr>attr_value := Some 99\<rparr>)"
  using duplicate_registration_replaces_or_shadows
          [where b = "add_attribute (add_attribute ex_block ex_input_a) ex_input_b"
             and a = "ex_input_a\<lparr>attr_value := Some 99\<rparr>" and k = "''input_b''"
             and sim = "add_block (new_simulation ''sim'') (add_attribute ex_block ex_input_a)"
             and k' = "''input_a''" and a' = ex_input_a
             and new = "add_attribute (ex_block\<lparr>block_id := ''test_002''\<rparr>)
                 (ex_input_a\<lparr>attr_value := Some 99\<rparr>)"]
  by (simp add: add_attribute_def add_block_def new_simulation_def ex_block_def ex_input_a_def
        ex_input_b_def get_attribute_def attribute_at_def Let_def)

text \<open>
  The claim as stated asks for a \<open>DuplicateId\<close> failure. Adding \<open>input_a\<close> twice to one
  block returns a block that holds the second attribute only; adding two blocks that
  both hold \<open>input_a\<close> returns a simulation with both blocks, where the lookup finds the
  first.
\<close>

theorem duplicate_id_counterexample:
  "attributes (add_attribute (add_attribute ex_block ex_input_a) (ex_input_a\<lparr>attr_value := Some 99\<rparr>))
     = [(''input_a'', ex_input_a\<lparr>attr_value := Some 99\<rparr>)] \<and>
   blocks (add_block (add_block (new_simulation ''sim'') (add_attribute ex_block ex_input_a))
             (add_attribute (ex_block\<lparr>block_id := ''test_002''\<rparr>) (ex_input_a\<lparr>attr_value := Some 99\<rparr>)))
     = [(''test_001'', add_attribute ex_block ex_input_a),
        (''test_002'', add_attribute (ex_block\<lparr>block_id := ''test_002''\<rparr>) (ex_input_a\<lparr>attr_value := Some 99\<rparr>))] \<and>
   map_option attr_value (find_attribute_by_id
      (blocks (add_block (add_block (new_simulation ''sim'') (add_attribute ex_block ex_input_a))
             (add_attribute (ex_block\<lparr>block_id := ''test_002''\<rparr>) (ex_input_a\<lparr>attr_value := Some 99\<rparr>))))
      ''input_a'') = Some (Some 10)"
  by (simp add: add_attribute_def add_block_def new_simulation_def ex_block_def ex_input_a_def Let_def)

subsection \<open>Seeding a cycle\<close>

lemma find_seed_one:
  "find_attribute_by_id (seed_one bs c) k =
     map_option (\<lambda>attr. if k = c \<and> attr_value attr = None
                        then attr\<lparr>attr_value := Some (seed_value k)\<rparr> else attr)
       (find_attribute_by_id bs k)"
  by (cases "find_attribute_by_id bs k")
     (auto simp: seed_one_def find_store_attribute split: option.splits)

lemma find_seed_cycle:
  "find_attribute_by_id (seed_cycle bs cycle) k =
     map_option (\<lambda>attr. if k \<in> set cycle \<and> attr_value attr = None
                        then attr\<lparr>attr_value := Some (seed_value k)\<rparr> else attr)
       (find_attribute_by_id bs k)"
  unfolding seed_cycle_def
proof (induction cycle arbitrary: bs)
  case Nil
  then show ?case by (simp add: option.map_ident)
next
  case (Cons c cs)
  show ?case
    by (cases "find_attribute_by_id bs k") (auto simp: Cons find_seed_one)
qed

lemma ex_cycle_blocks:
  "blocks ex_cycle_sim =
     [(''cycle_001'',
       \<lparr>block_id = ''cycle_001'', block_name = ''Cycle Test Block'',
        attributes = [(''attr_a'', ex_attr_a), (''attr_b'', ex_attr_b)],
        block_metadata = Map.empty\<rparr>)]"
  by (simp add: ex_cycle_sim_def add_block_def new_simulation_def add_attribute_def
        ex_attr_a_def ex_attr_b_def Let_def)

text \<open>
  Claim C8. The seeding step gives every attribute of the cycle whose value is \<open>None\<close>
  the seed for its id: 50 when the lower-cased id contains \<open>selling_price\<close>, 1000 when
  it contains \<open>market_demand\<close>, 100 otherwise. A cycle attribute whose value is not
  \<open>None\<close> is the same attribute after the step.
\<close>

theorem seeding_assigns_null_cycle_attributes:
  "\<forall>attr_id \<in> set cycle. \<forall>attr. find_attribute_by_id bs attr_id = Some attr \<longrightarrow>
     (attr_value attr = None \<longrightarrow>
        find_attribute_by_id (seed_cycle bs cycle) attr_id =
          Some (attr\<lparr>attr_value :=
                  Some (if sublist ''selling_price'' (lower attr_id) then 50
                        else if sublist ''market_demand'' (lower attr_id) then 1000
                        else 100)\<rparr>)) \<and>
     (attr_value attr \<noteq> None \<longrightarrow>
        find_attribute_by_id (seed_cycle bs cycle) attr_id = Some attr)"
  by (auto simp: find_seed_cycle seed_value_def contains_def)

theorem seeding_assigns_null_cycle_attributes_witness:
  "''attr_a'' \<in> set [''attr_a'', ''attr_b'', ''attr_a''] \<and>
   find_attribute_by_id (blocks ex_cycle_sim) ''attr_a'' = Some ex_attr_a \<and>
   attr_value ex_attr_a = None \<and>
   find_attribute_by_id (seed_cycle (blocks ex_cycle_sim) [''attr_a'', ''attr_b'', ''attr_a''])
     ''attr_a'' = Some (ex_attr_a\<lparr>attr_value := Some 100\<rparr>) \<and>
   find_attribute_by_id
     (seed_cycle (store_attribute (blocks ex_cycle_sim) ''attr_b'' (ex_attr_b\<lparr>attr_value := Some 7\<rparr>))
        [''attr_a'', ''attr_b'', ''attr_a''])
     ''attr_b'' = Some (ex_attr_b\<lparr>attr_value := Some 7\<rparr>)"
  using seeding_assigns_null_cycle_attributes
          [of "[''attr_a'', ''attr_b'', ''attr_a'']" "blocks ex_cycle_sim"]
        seeding_assigns_null_cycle_attributes
          [of "[''attr_a'', ''attr_b'', ''attr_a'']"
              "store_attribute (blocks ex_cycle_sim) ''attr_b'' (ex_attr_b\<lparr>attr_value := Some 7\<rparr>)"]
  by (simp add: ex_cycle_blocks ex_attr_a_def ex_attr_b_def string_eval)

subsection \<open>Graphs built by the engine are well formed\<close>

lemma set_add_set: "set (set_add xs x) = insert x (set xs)"
  by (auto simp: set_add_def)

lemma set_add_distinct: "distinct xs \<Longrightarrow> distinct (set_add xs x)"
  by (auto simp: set_add_def)

lemma wf_graph_empty: "wf_graph empty_graph"
  by (simp add: wf_graph_def empty_graph_def)

lemma wf_graph_add_node: "wf_graph g \<Longrightarrow> wf_graph (add_node g n)"
  by (auto simp: wf_graph_def add_node_def set_add_set set_add_distinct)

lemma wf_graph_add_dependency: "wf_graph g \<Longrightarrow> wf_graph (add_dependency g a b)"
  by (auto simp: wf_graph_def add_dependency_def set_add_set set_add_distinct)

lemma wf_graph_add_block:
  "wf_graph (dependency_graph sim) \<Longrightarrow> wf_graph (dependency_graph (add_block sim block))"
proof -
  assume wf: "wf_graph (dependency_graph sim)"
  have n: "wf_graph g \<Longrightarrow> wf_graph (foldl (\<lambda>g attr. add_node g (attr_ident attr)) g as)" for g as
    by (induction as arbitrary: g) (auto simp: wf_graph_add_node)
  have d: "wf_graph g \<Longrightarrow>
        wf_graph (foldl (\<lambda>g' dep_id. if P dep_id then add_dependency g' a dep_id else g') g ds)"
    for g ds a P
    by (induction ds arbitrary: g) (auto simp: wf_graph_add_dependency)
  have c: "wf_graph g \<Longrightarrow>
        wf_graph (foldl (\<lambda>g attr. if attribute_type attr = CALCULATED then
                    foldl (\<lambda>g' dep_id. if P dep_id then add_dependency g' (attr_ident attr) dep_id else g')
                      g (dependencies attr)
                  else g) g as)" for g as P
    by (induction as arbitrary: g) (auto simp: d)
  show ?thesis unfolding add_block_def Let_def using wf by (simp add: n c)
qed

lemma ex_cycle_graph:
  "dependency_graph ex_cycle_sim =
     \<lparr>nodes = [''attr_a'', ''attr_b''],
      edges = (\<lambda>_. [])(''attr_b'' := [''attr_a''], ''attr_a'' := [''attr_b'']),
      reverse_edges = (\<lambda>_. [])(''attr_a'' := [''attr_b''], ''attr_b'' := [''attr_a''])\<rparr>"
  by (simp add: ex_cycle_sim_def add_block_def new_simulation_def add_attribute_def
        ex_attr_a_def ex_attr_b_def Let_def add_node_def add_dependency_def set_add_def
        empty_graph_def)

lemma ex_simple_graph:
  "dependency_graph ex_simple_sim =
     \<lparr>nodes = [''input_a'', ''input_b'', ''output_c''],
      edges = (\<lambda>_. [])(''input_a'' := [''output_c''], ''input_b'' := [''output_c'']),
      reverse_edges = (\<lambda>_. [])(''output_c'' := [''input_a'', ''input_b''])\<rparr>"
  by (simp add: ex_simple_sim_def add_block_def new_simulation_def add_attribute_def
        ex_input_a_def ex_input_b_def ex_output_c_def ex_block_def Let_def add_node_def
        add_dependency_def set_add_def empty_graph_def)

lemma ex_cycle_wf: "wf_graph (dependency_graph ex_cycle_sim)"
  unfolding ex_cycle_sim_def
  by (intro wf_graph_add_block) (simp add: new_simulation_def wf_graph_empty)

lemma ex_simple_wf: "wf_graph (dependency_graph ex_simple_sim)"
  unfolding ex_simple_sim_def
  by (intro wf_graph_add_block) (simp add: new_simulation_def wf_graph_empty)

lemma ex_cycle_find_cycles:
  "find_cycles (dependency_graph ex_cycle_sim) = Inr [[''attr_a'', ''attr_b'', ''attr_a'']]"
  by (simp add: ex_cycle_graph find_cycles_def)

lemma ex_simple_find_cycles:
  "find_cycles (dependency_graph ex_simple_sim) = Inr []"
  by (simp add: ex_simple_graph find_cycles_def)

lemma ex_simple_topological_sort:
  "topological_sort (dependency_graph ex_simple_sim) = Inr [''input_a'', ''input_b'', ''output_c'']"
  by (simp add: topological_sort_def ex_simple_find_cycles)
     (simp add: ex_simple_graph count_incoming_def init_in_degree_def deg_get_def Let_def)

subsection \<open>Depth-first search\<close>

lemma index_of_Some: "x \<in> set xs \<Longrightarrow> \<exists>i. index_of xs x = Some i"
  by (induction xs) auto

lemma index_of_drop: "index_of xs x = Some i \<Longrightarrow> \<exists>rest. drop i xs = x # rest"
  by (induction xs arbitrary: i) (auto split: if_splits)

lemma follows_edges_snoc:
  "follows_edges g path \<Longrightarrow> path = [] \<or> node \<in> set (edges g (last path)) \<Longrightarrow>
   follows_edges g (path @ [node])"
  by (induction g path rule: follows_edges.induct) auto

lemma follows_edges_drop: "follows_edges g path \<Longrightarrow> follows_edges g (drop i path)"
proof (induction g path arbitrary: i rule: follows_edges.induct)
  case (3 g x y rest)
  then show ?case by (cases i) auto
qed (auto simp: drop_Cons split: nat.splits)

lemma follows_edges_trancl:
  "follows_edges g (x # xs) \<Longrightarrow> xs \<noteq> [] \<Longrightarrow> (x, last xs) \<in> (edge_rel g)\<^sup>+"
proof (induction xs arbitrary: x)
  case Nil
  then show ?case by simp
next
  case (Cons y ys)
  have e: "(x, y) \<in> edge_rel g" using Cons.prems by (simp add: edge_rel_def)
  show ?case
  proof (cases ys)
    case Nil
    then show ?thesis using e by auto
  next
    case (Cons z zs)
    then have "(y, last ys) \<in> (edge_rel g)\<^sup>+" using Cons.IH[of y] Cons.prems by simp
    then show ?thesis using e Cons by (auto intro: trancl_into_trancl2)
  qed
qed

lemma is_cycle_trancl: "is_cycle g c \<Longrightarrow> (hd c, hd c) \<in> (edge_rel g)\<^sup>+"
proof -
  assume c: "is_cycle g c"
  then obtain x xs where cx: "c = x # xs" "xs \<noteq> []"
    by (cases c) (auto simp: is_cycle_def Suc_le_eq)
  with c have "(x, last xs) \<in> (edge_rel g)\<^sup>+"
    using follows_edges_trancl[of g x xs] by (simp add: is_cycle_def)
  with c cx show ?thesis by (simp add: is_cycle_def)
qed

lemma dfs_basic:
  "dfs n g node path st = Inr st' \<Longrightarrow> rec_stack st = set path \<Longrightarrow> rec_stack st \<subseteq> visited st \<Longrightarrow>
     rec_stack st' = rec_stack st \<and> visited st \<subseteq> visited st' \<and> node \<in> visited st' \<and>
     (\<exists>new. cycles st' = cycles st @ new)"
  "dfs_neighbors n g nbs path st = Inr st' \<Longrightarrow> rec_stack st = set path \<Longrightarrow>
   rec_stack st \<subseteq> visited st \<Longrightarrow>
     rec_stack st' = rec_stack st \<and> visited st \<subseteq> visited st' \<and> set nbs \<subseteq> visited st' \<and>
     (\<exists>new. cycles st' = cycles st @ new)"
proof (induction n g node path st and n g nbs path st arbitrary: st' and st'
       rule: dfs_dfs_neighbors.induct)
  case (1 g node path st)
  then show ?case by simp
next
  case (2 n g node path st)
  show ?case
  proof (cases "node \<in> rec_stack st")
    case True
    with "2.prems" show ?thesis by (auto split: option.splits)
  next
    case nrec: False
    show ?thesis
    proof (cases "node \<in> visited st")
      case True
      with nrec "2.prems" show ?thesis by auto
    next
      case nvis: False
      let ?st1 = "st\<lparr>visited := insert node (visited st), rec_stack := insert node (rec_stack st)\<rparr>"
      from "2.prems"(1) nrec nvis obtain st2 where
        st2: "dfs_neighbors n g (edges g node) (path @ [node]) ?st1 = Inr st2"
        and st': "st' = st2\<lparr>rec_stack := rec_stack st2 - {node}\<rparr>"
        by (auto split: sum.splits if_splits)
      have "rec_stack st2 = rec_stack ?st1 \<and> visited ?st1 \<subseteq> visited st2 \<and>
            set (edges g node) \<subseteq> visited st2 \<and> (\<exists>new. cycles st2 = cycles ?st1 @ new)"
        using "2.IH"[OF nrec nvis st2] "2.prems" by auto
      then show ?thesis using st' nrec by auto
    qed
  qed
next
  case (3 n g path st)
  then show ?case by simp
next
  case (4 n g neighbor rest path st)
  from "4.prems"(1) obtain st1 where
    st1: "dfs n g neighbor path st = Inr st1" and
    rest: "dfs_neighbors n g rest path st1 = Inr st'"
    by (auto split: sum.splits)
  have a: "rec_stack st1 = rec_stack st \<and> visited st \<subseteq> visited st1 \<and> neighbor \<in> visited st1 \<and>
     (\<exists>new. cycles st1 = cycles st @ new)"
    using "4.IH"(1)[OF st1] "4.prems" by simp
  then have b: "rec_stack st' = rec_stack st1 \<and> visited st1 \<subseteq> visited st' \<and> set rest \<subseteq> visited st' \<and>
     (\<exists>new. cycles st' = cycles st1 @ new)"
    using "4.IH"(2)[OF st1 rest] "4.prems" by auto
  from a b show ?case by auto
qed

lemma dfs_sound:
  "dfs n g node path st = Inr st' \<Longrightarrow> rec_stack st = set path \<Longrightarrow> rec_stack st \<subseteq> visited st \<Longrightarrow>
   follows_edges g path \<Longrightarrow> path = [] \<or> node \<in> set (edges g (last path)) \<Longrightarrow>
     (\<forall>c \<in> set (cycles st). is_cycle g c) \<Longrightarrow> (\<forall>c \<in> set (cycles st'). is_cycle g c)"
  "dfs_neighbors n g nbs path st = Inr st' \<Longrightarrow> rec_stack st = set path \<Longrightarrow>
   rec_stack st \<subseteq> visited st \<Longrightarrow>
   follows_edges g path \<Longrightarrow> path \<noteq> [] \<Longrightarrow> set nbs \<subseteq> set (edges g (last path)) \<Longrightarrow>
     (\<forall>c \<in> set (cycles st). is_cycle g c) \<Longrightarrow> (\<forall>c \<in> set (cycles st'). is_cycle g c)"
proof (induction n g node path st and n g nbs path st arbitrary: st' and st'
       rule: dfs_dfs_neighbors.induct)
  case (1 g node path st)
  then show ?case by simp
next
  case (2 n g node path st)
  show ?case
  proof (cases "node \<in> rec_stack st")
    case True
    then have "node \<in> set path" using "2.prems" by simp
    then obtain i where i: "index_of path node = Some i" using index_of_Some by fastforce
    then obtain rest where d: "drop i path = node # rest" using index_of_drop by fastforce
    have ne: "path \<noteq> []" using \<open>node \<in> set path\<close> by auto
    have "follows_edges g (drop i path)" using "2.prems" follows_edges_drop by blast
    moreover have "last (drop i path) = last path" using d ne
      by (metis last_drop drop_eq_Nil leI list.distinct(1))
    ultimately have "follows_edges g (drop i path @ [node])"
      using follows_edges_snoc[of g "drop i path" node] "2.prems"(5) ne by simp
    then have "is_cycle g (drop i path @ [node])"
      using d by (simp add: is_cycle_def)
    with True i "2.prems" show ?thesis by auto
  next
    case nrec: False
    show ?thesis
    proof (cases "node \<in> visited st")
      case True
      with nrec "2.prems" show ?thesis by auto
    next
      case nvis: False
      let ?st1 = "st\<lparr>visited := insert node (visited st), rec_stack := insert node (rec_stack st)\<rparr>"
      from "2.prems"(1) nrec nvis obtain st2 where
        st2: "dfs_neighbors n g (edges g node) (path @ [node]) ?st1 = Inr st2"
        and st': "st' = st2\<lparr>rec_stack := rec_stack st2 - {node}\<rparr>"
        by (auto split: sum.splits if_splits)
      have "follows_edges g (path @ [node])"
        using follows_edges_snoc "2.prems" by blast
      then have "\<forall>c \<in> set (cycles st2). is_cycle g c"
        using "2.IH"[OF nrec nvis st2] "2.prems" by auto
      then show ?thesis using st' by simp
    qed
  qed
next
  case (3 n g path st)
  then show ?case by simp
next
  case (4 n g neighbor rest path st)
  from "4.prems"(1) obtain st1 where
    st1: "dfs n g neighbor path st = Inr st1" and
    rest: "dfs_neighbors n g rest path st1 = Inr st'"
    by (auto split: sum.splits)
  have a: "rec_stack st1 = rec_stack st \<and> visited st \<subseteq> visited st1"
    using dfs_basic(1)[OF st1] "4.prems" by simp
  have c1: "\<forall>c \<in> set (cycles st1). is_cycle g c"
    using "4.IH"(1)[OF st1] "4.prems" by simp
  show ?case
    using "4.IH"(2)[OF st1 rest] "4.prems" a c1 by auto
qed

lemma finished_closed:
  assumes "finished_ok g st" and "u \<in> visited st - rec_stack st" and "(u, v) \<in> (edge_rel g)\<^sup>*"
  shows "v \<in> visited st - rec_stack st"
  using assms(3,2)
proof (induction rule: rtrancl_induct)
  case base
  then show ?case .
next
  case (step y z)
  then have y: "y \<in> visited st - rec_stack st" by blast
  have "z \<in> set (edges g y)" using step.hyps(2) by (simp add: edge_rel_def)
  with y assms(1) show ?case unfolding finished_ok_def by blast
qed

lemma finished_enter:
  assumes "finished_ok g st" and "node \<notin> visited st" and "node \<notin> rec_stack st"
  shows "finished_ok g (st\<lparr>visited := insert node (visited st),
                            rec_stack := insert node (rec_stack st)\<rparr>)"
proof -
  let ?st1 = "st\<lparr>visited := insert node (visited st), rec_stack := insert node (rec_stack st)\<rparr>"
  have v: "visited ?st1 = insert node (visited st)" by simp
  have r: "rec_stack ?st1 = insert node (rec_stack st)" by simp
  have eq: "visited ?st1 - rec_stack ?st1 = visited st - rec_stack st"
    unfolding v r using assms(2,3) by blast
  show ?thesis
    using assms(1) unfolding finished_ok_def eq .
qed

lemma finished_leave:
  assumes ok: "finished_ok g st"
    and succ: "set (edges g node) \<subseteq> visited st - rec_stack st"
    and inrec: "node \<in> rec_stack st" and invis: "node \<in> visited st"
  shows "finished_ok g (st\<lparr>rec_stack := rec_stack st - {node}\<rparr>)"
proof -
  let ?F = "visited st - rec_stack st"
  have F': "visited st - (rec_stack st - {node}) = insert node ?F"
    using inrec invis by blast
  have acyc: "(node, node) \<notin> (edge_rel g)\<^sup>+"
  proof
    assume "(node, node) \<in> (edge_rel g)\<^sup>+"
    then obtain s where s: "(node, s) \<in> edge_rel g" "(s, node) \<in> (edge_rel g)\<^sup>*"
      using tranclD by fastforce
    from s(1) have "s \<in> set (edges g node)" by (simp add: edge_rel_def)
    with succ have "s \<in> ?F" by blast
    from finished_closed[OF ok this s(2)] inrec show False by simp
  qed
  have "\<forall>u \<in> insert node ?F.
          (\<forall>v \<in> set (edges g u). v \<in> insert node ?F) \<and> (u, u) \<notin> (edge_rel g)\<^sup>+"
  proof
    fix u assume u: "u \<in> insert node ?F"
    show "(\<forall>v \<in> set (edges g u). v \<in> insert node ?F) \<and> (u, u) \<notin> (edge_rel g)\<^sup>+"
    proof (cases "u = node")
      case True
      with succ acyc show ?thesis by blast
    next
      case False
      with u have "u \<in> ?F" by blast
      with ok show ?thesis unfolding finished_ok_def by blast
    qed
  qed
  moreover have "visited (st\<lparr>rec_stack := rec_stack st - {node}\<rparr>)
                   - rec_stack (st\<lparr>rec_stack := rec_stack st - {node}\<rparr>) = insert node ?F"
    using F' by simp
  ultimately show ?thesis unfolding finished_ok_def by presburger
qed

lemma dfs_complete:
  "dfs n g node path st = Inr st' \<Longrightarrow> rec_stack st = set path \<Longrightarrow> rec_stack st \<subseteq> visited st \<Longrightarrow>
   cycles st' = [] \<Longrightarrow> finished_ok g st \<Longrightarrow>
     finished_ok g st' \<and> node \<in> visited st' - rec_stack st'"
  "dfs_neighbors n g nbs path st = Inr st' \<Longrightarrow> rec_stack st = set path \<Longrightarrow>
   rec_stack st \<subseteq> visited st \<Longrightarrow>
   cycles st' = [] \<Longrightarrow> finished_ok g st \<Longrightarrow>
     finished_ok g st' \<and> set nbs \<subseteq> visited st' - rec_stack st'"
proof (induction n g node path st and n g nbs path st arbitrary: st' and st'
       rule: dfs_dfs_neighbors.induct)
  case (1 g node path st)
  then show ?case by simp
next
  case (2 n g node path st)
  show ?case
  proof (cases "node \<in> rec_stack st")
    case True
    with "2.prems"(1,4) show ?thesis by (simp split: option.splits) force
  next
    case nrec: False
    show ?thesis
    proof (cases "node \<in> visited st")
      case True
      with nrec "2.prems"(1,5) show ?thesis by simp
    next
      case nvis: False
      let ?st1 = "st\<lparr>visited := insert node (visited st), rec_stack := insert node (rec_stack st)\<rparr>"
      from "2.prems"(1) nrec nvis obtain st2 where
        st2: "dfs_neighbors n g (edges g node) (path @ [node]) ?st1 = Inr st2"
        and st': "st' = st2\<lparr>rec_stack := rec_stack st2 - {node}\<rparr>"
        by (auto split: sum.splits if_splits)
      have p1: "rec_stack ?st1 = set (path @ [node])" using "2.prems"(2) by simp
      have p2: "rec_stack ?st1 \<subseteq> visited ?st1" using "2.prems"(3) by auto
      have b: "rec_stack st2 = rec_stack ?st1" "visited ?st1 \<subseteq> visited st2"
        using dfs_basic(2)[OF st2 p1 p2] by simp_all
      have f1: "finished_ok g ?st1"
        using finished_enter[OF "2.prems"(5) nvis nrec] .
      have c2: "cycles st2 = []" using st' "2.prems"(4) by simp
      have ih: "finished_ok g st2 \<and> set (edges g node) \<subseteq> visited st2 - rec_stack st2"
        using "2.IH"[OF nrec nvis st2 p1 p2 c2 f1] .
      have inrec: "node \<in> rec_stack st2" using b(1) by simp
      have invis: "node \<in> visited st2" using b(2) by auto
      have "finished_ok g st'"
        unfolding st' using finished_leave[OF _ _ inrec invis] ih by blast
      moreover have "node \<in> visited st' - rec_stack st'"
        unfolding st' using invis by simp
      ultimately show ?thesis by blast
    qed
  qed
next
  case (3 n g path st)
  then show ?case by simp
next
  case (4 n g neighbor rest path st)
  from "4.prems"(1) obtain st1 where
    st1: "dfs n g neighbor path st = Inr st1" and
    rest: "dfs_neighbors n g rest path st1 = Inr st'"
    by (auto split: sum.splits)
  have a: "rec_stack st1 = rec_stack st" "visited st \<subseteq> visited st1"
    using dfs_basic(1)[OF st1 "4.prems"(2,3)] by simp_all
  have q1: "rec_stack st1 = set path" using a(1) "4.prems"(2) by simp
  have q2: "rec_stack st1 \<subseteq> visited st1" using a "4.prems"(3) by blast
  have b: "rec_stack st' = rec_stack st1" "visited st1 \<subseteq> visited st'"
    "\<exists>new. cycles st' = cycles st1 @ new"
    using dfs_basic(2)[OF rest q1 q2] by simp_all
  have c1: "cycles st1 = []" using b(3) "4.prems"(4) by auto
  have i1: "finished_ok g st1 \<and> neighbor \<in> visited st1 - rec_stack st1"
    using "4.IH"(1)[OF st1 "4.prems"(2,3) c1 "4.prems"(5)] .
  have i2: "finished_ok g st' \<and> set rest \<subseteq> visited st' - rec_stack st'"
    using "4.IH"(2)[OF st1 rest q1 q2 "4.prems"(4)] i1 by blast
  have "neighbor \<in> visited st' - rec_stack st'" using i1 b(1,2) by blast
  with i2 show ?case by simp
qed

lemma dfs_returns:
  "rec_stack st = set path \<Longrightarrow> rec_stack st \<subseteq> visited st \<Longrightarrow> wf_graph g \<Longrightarrow>
   node \<in> set (nodes g) \<Longrightarrow> card (set (nodes g) - visited st) < n \<Longrightarrow>
     \<exists>st'. dfs n g node path st = Inr st'"
  "rec_stack st = set path \<Longrightarrow> rec_stack st \<subseteq> visited st \<Longrightarrow> wf_graph g \<Longrightarrow>
   set nbs \<subseteq> set (nodes g) \<Longrightarrow> card (set (nodes g) - visited st) < n \<Longrightarrow>
     \<exists>st'. dfs_neighbors n g nbs path st = Inr st'"
proof (induction n g node path st and n g nbs path st
       rule: dfs_dfs_neighbors.induct)
  case (1 g node path st)
  then show ?case by simp
next
  case (2 n g node path st)
  show ?case
  proof (cases "node \<in> rec_stack st")
    case True
    then have "node \<in> set path" using "2.prems" by simp
    then obtain i where i: "index_of path node = Some i" using index_of_Some by fastforce
    with True show ?thesis by simp
  next
    case nrec: False
    show ?thesis
    proof (cases "node \<in> visited st")
      case True
      with nrec show ?thesis by simp
    next
      case nvis: False
      let ?st1 = "st\<lparr>visited := insert node (visited st), rec_stack := insert node (rec_stack st)\<rparr>"
      have "set (nodes g) - visited ?st1 = (set (nodes g) - visited st) - {node}" by auto
      moreover have "node \<in> set (nodes g) - visited st" using nvis "2.prems" by simp
      ultimately have "card (set (nodes g) - visited ?st1) < n"
        using "2.prems"(5) card_Diff1_less[of "set (nodes g) - visited st" node] by simp
      moreover have "set (edges g node) \<subseteq> set (nodes g)"
        using "2.prems"(3) by (auto simp: wf_graph_def)
      ultimately obtain st2 where
        st2: "dfs_neighbors n g (edges g node) (path @ [node]) ?st1 = Inr st2"
        using "2.IH"[OF nrec nvis] "2.prems" by auto
      have "rec_stack st2 = rec_stack ?st1"
        using dfs_basic(2)[OF st2] "2.prems" by auto
      then show ?thesis using st2 nrec nvis by simp
    qed
  qed
next
  case (3 n g path st)
  then show ?case by simp
next
  case (4 n g neighbor rest path st)
  obtain st1 where st1: "dfs n g neighbor path st = Inr st1"
    using "4.IH"(1) "4.prems" by auto
  have a: "rec_stack st1 = rec_stack st" "visited st \<subseteq> visited st1"
    using dfs_basic(1)[OF st1] "4.prems" by simp_all
  have "set (nodes g) - visited st1 \<subseteq> set (nodes g) - visited st" using a by auto
  then have "card (set (nodes g) - visited st1) \<le> card (set (nodes g) - visited st)"
    by (simp add: card_mono)
  moreover have "rec_stack st1 \<subseteq> visited st1" using a "4.prems" by auto
  ultimately obtain st' where "dfs_neighbors n g rest path st1 = Inr st'"
    using "4.IH"(2)[OF st1] "4.prems" a by auto
  then show ?case using st1 by simp
qed

lemma find_cycles_from_spec:
  assumes "wf_graph g"
  shows "set ns \<subseteq> set (nodes g) \<Longrightarrow> rec_stack st = {} \<Longrightarrow>
     \<exists>st'. find_cycles_from g ns st = Inr st' \<and> rec_stack st' = {} \<and>
       visited st \<union> set ns \<subseteq> visited st' \<and>
       (\<exists>new. cycles st' = cycles st @ new) \<and>
       ((\<forall>c \<in> set (cycles st). is_cycle g c) \<longrightarrow> (\<forall>c \<in> set (cycles st'). is_cycle g c)) \<and>
       (cycles st' = [] \<longrightarrow> finished_ok g st \<longrightarrow> finished_ok g st')"
proof (induction ns arbitrary: st)
  case Nil
  then show ?case by simp
next
  case (Cons node rest)
  show ?case
  proof (cases "node \<in> visited st")
    case True
    have sub: "set rest \<subseteq> set (nodes g)" using Cons.prems(1) by simp
    obtain st' where st': "find_cycles_from g rest st = Inr st'" "rec_stack st' = {}"
       "visited st \<union> set rest \<subseteq> visited st'"
       "\<exists>new. cycles st' = cycles st @ new"
       "(\<forall>c \<in> set (cycles st). is_cycle g c) \<longrightarrow> (\<forall>c \<in> set (cycles st'). is_cycle g c)"
       "cycles st' = [] \<longrightarrow> finished_ok g st \<longrightarrow> finished_ok g st'"
      using Cons.IH[OF sub Cons.prems(2)] by blast
    have run: "find_cycles_from g (node # rest) st = Inr st'"
      using True st'(1) by simp
    have vis: "visited st \<union> set (node # rest) \<subseteq> visited st'"
      using True st'(3) by auto
    show ?thesis using run st'(2) vis st'(4,5,6) by blast
  next
    case False
    have p1: "rec_stack st = set []" and p2: "rec_stack st \<subseteq> visited st"
      using Cons.prems(2) by simp_all
    have "card (set (nodes g) - visited st) \<le> card (set (nodes g))"
      by (simp add: card_mono)
    also have "\<dots> \<le> length (nodes g)" by (rule card_length)
    finally have fuel: "card (set (nodes g) - visited st) < Suc (length (nodes g))" by simp
    have nd: "node \<in> set (nodes g)" using Cons.prems(1) by simp
    obtain st1 where st1: "dfs (Suc (length (nodes g))) g node [] st = Inr st1"
      using dfs_returns(1)[OF p1 p2 assms nd fuel] by blast
    have b: "rec_stack st1 = rec_stack st" "visited st \<subseteq> visited st1" "node \<in> visited st1"
      "\<exists>new. cycles st1 = cycles st @ new"
      using dfs_basic(1)[OF st1 p1 p2] by simp_all
    have s1: "(\<forall>c \<in> set (cycles st). is_cycle g c) \<longrightarrow> (\<forall>c \<in> set (cycles st1). is_cycle g c)"
      using dfs_sound(1)[OF st1 p1 p2] by simp
    have c1: "cycles st1 = [] \<longrightarrow> finished_ok g st \<longrightarrow> finished_ok g st1"
      using dfs_complete(1)[OF st1 p1 p2] by blast
    have r1: "rec_stack st1 = {}" using b(1) Cons.prems(2) by simp
    have sub: "set rest \<subseteq> set (nodes g)" using Cons.prems(1) by simp
    obtain st' where st': "find_cycles_from g rest st1 = Inr st'" "rec_stack st' = {}"
       "visited st1 \<union> set rest \<subseteq> visited st'"
       "\<exists>new. cycles st' = cycles st1 @ new"
       "(\<forall>c \<in> set (cycles st1). is_cycle g c) \<longrightarrow> (\<forall>c \<in> set (cycles st'). is_cycle g c)"
       "cycles st' = [] \<longrightarrow> finished_ok g st1 \<longrightarrow> finished_ok g st'"
      using Cons.IH[OF sub r1] by blast
    have run: "find_cycles_from g (node # rest) st = Inr st'"
      using False st1 st'(1) by simp
    have vis: "visited st \<union> set (node # rest) \<subseteq> visited st'"
      using b(2,3) st'(3) by auto
    have app: "\<exists>new. cycles st' = cycles st @ new"
    proof -
      from b(4) obtain n1 where "cycles st1 = cycles st @ n1" by blast
      moreover from st'(4) obtain n2 where "cycles st' = cycles st1 @ n2" by blast
      ultimately have "cycles st' = cycles st @ (n1 @ n2)" by simp
      then show ?thesis by blast
    qed
    have snd: "(\<forall>c \<in> set (cycles st). is_cycle g c) \<longrightarrow> (\<forall>c \<in> set (cycles st'). is_cycle g c)"
      using s1 st'(5) by blast
    have "cycles st' = [] \<longrightarrow> cycles st1 = []" using st'(4) by auto
    then have cmp: "cycles st' = [] \<longrightarrow> finished_ok g st \<longrightarrow> finished_ok g st'"
      using c1 st'(6) by blast
    show ?thesis using run st'(2) vis app snd cmp by blast
  qed
qed

lemma edge_rel_in_nodes:
  "wf_graph g \<Longrightarrow> (u, v) \<in> (edge_rel g)\<^sup>+ \<Longrightarrow> u \<in> set (nodes g)"
proof -
  assume wf: "wf_graph g" and "(u, v) \<in> (edge_rel g)\<^sup>+"
  then obtain z where "(u, z) \<in> edge_rel g" using tranclD by fastforce
  then show ?thesis using wf by (auto simp: wf_graph_def edge_rel_def)
qed

lemma find_cycles_spec:
  "wf_graph g \<Longrightarrow>
   \<exists>found. find_cycles g = Inr found \<and>
     (found \<noteq> [] \<longleftrightarrow> \<not> acyclic (edge_rel g)) \<and>
     (\<forall>c \<in> set found. is_cycle g c)"
proof -
  assume wf: "wf_graph g"
  let ?st0 = "\<lparr>visited = {}, rec_stack = {}, cycles = []\<rparr>"
  obtain st' where st': "find_cycles_from g (nodes g) ?st0 = Inr st'" "rec_stack st' = {}"
       "visited ?st0 \<union> set (nodes g) \<subseteq> visited st'"
       "(\<forall>c \<in> set (cycles ?st0). is_cycle g c) \<longrightarrow> (\<forall>c \<in> set (cycles st'). is_cycle g c)"
       "cycles st' = [] \<longrightarrow> finished_ok g ?st0 \<longrightarrow> finished_ok g st'"
    using find_cycles_from_spec[OF wf, of "nodes g" ?st0] by auto
  have fc: "find_cycles g = Inr (cycles st')" using st'(1) by (simp add: find_cycles_def)
  have genuine: "\<forall>c \<in> set (cycles st'). is_cycle g c" using st'(4) by simp
  have "acyclic (edge_rel g)" if empty: "cycles st' = []"
  proof -
    have "finished_ok g ?st0" unfolding finished_ok_def by simp
    then have ok: "finished_ok g st'" using st'(5) empty by blast
    show ?thesis unfolding acyclic_def
    proof (intro allI notI)
      fix u assume u: "(u, u) \<in> (edge_rel g)\<^sup>+"
      then have "u \<in> set (nodes g)" using edge_rel_in_nodes[OF wf] by blast
      then have "u \<in> visited st' - rec_stack st'" using st'(2,3) by auto
      with ok u show False unfolding finished_ok_def by blast
    qed
  qed
  moreover have "\<not> acyclic (edge_rel g)" if ne: "cycles st' \<noteq> []"
  proof -
    from ne obtain c where "c \<in> set (cycles st')" by (cases "cycles st'") auto
    with genuine have "is_cycle g c" by blast
    then have "(hd c, hd c) \<in> (edge_rel g)\<^sup>+" by (rule is_cycle_trancl)
    then show ?thesis unfolding acyclic_def by blast
  qed
  ultimately show ?thesis using fc genuine by blast
qed

text \<open>
  Claim C3. On every graph the engine can build, \<open>find_cycles\<close> returns a list (it
  raises nothing and its search never exceeds the recursion budget), the list is
  non-empty exactly when the edge relation has a cycle, and every returned path has at
  least two elements, follows forward edges from each element to the next, and ends in
  its first element.
\<close>

theorem find_cycles_iff_not_dag:
  "wf_graph g \<Longrightarrow>
   \<exists>found. find_cycles g = Inr found \<and>
     (found \<noteq> [] \<longleftrightarrow> \<not> acyclic (edge_rel g)) \<and>
     (\<forall>c \<in> set found.
        2 \<le> length c \<and> follows_edges g c \<and> last c = hd c)"
  using find_cycles_spec[of g] unfolding is_cycle_def by blast

theorem find_cycles_iff_not_dag_witness:
  "wf_graph (dependency_graph ex_cycle_sim) \<and>
   find_cycles (dependency_graph ex_cycle_sim) = Inr [[''attr_a'', ''attr_b'', ''attr_a'']] \<and>
   \<not> acyclic (edge_rel (dependency_graph ex_cycle_sim)) \<and>
   is_cycle (dependency_graph ex_cycle_sim) [''attr_a'', ''attr_b'', ''attr_a'']"
  using find_cycles_iff_not_dag[OF ex_cycle_wf] ex_cycle_wf
  by (simp add: ex_cycle_find_cycles is_cycle_def)

subsection \<open>Kahn's algorithm\<close>

lemma decrement_dependents_closed:
  "distinct es \<Longrightarrow> decrement_dependents es (d, q) = (d', q') \<Longrightarrow>
     (\<forall>v. deg_get d' v = deg_get d v - (if v \<in> set es then 1 else 0)) \<and>
     q' = q @ filter (\<lambda>v. deg_get d v = 1) es"
proof (induction es arbitrary: d q)
  case Nil
  then show ?case by simp
next
  case (Cons e rest)
  let ?d1 = "dict_set d e (deg_get d e - 1)"
  let ?q1 = "if deg_get ?d1 e = 0 then q @ [e] else q"
  have run: "decrement_dependents rest (?d1, ?q1) = (d', q')"
    using Cons.prems(2) by (simp add: Let_def)
  have dr: "distinct rest" and en: "e \<notin> set rest" using Cons.prems(1) by simp_all
  from Cons.IH[OF dr run]
  have ih1: "\<forall>v. deg_get d' v = deg_get ?d1 v - (if v \<in> set rest then 1 else 0)"
    and ih2: "q' = ?q1 @ filter (\<lambda>v. deg_get ?d1 v = 1) rest" by simp_all
  have f: "filter (\<lambda>v. deg_get ?d1 v = 1) rest = filter (\<lambda>v. deg_get d v = 1) rest"
    using en by (intro filter_cong) (auto simp: deg_get_dict_set)
  have q1: "?q1 = q @ filter (\<lambda>v. deg_get d v = 1) [e]"
    by (simp add: deg_get_dict_set)
  have "\<forall>v. deg_get d' v = deg_get d v - (if v \<in> set (e # rest) then 1 else 0)"
    using ih1 en by (auto simp: deg_get_dict_set)
  moreover have "q' = q @ filter (\<lambda>v. deg_get d v = 1) (e # rest)"
    unfolding ih2 f q1 by simp
  ultimately show ?case by blast
qed

lemma deg_get_count_edges:
  "distinct es \<Longrightarrow>
   deg_get (foldl (\<lambda>d' x. dict_set d' x (deg_get d' x + 1)) d es) v
     = deg_get d v + (if v \<in> set es then 1 else 0)"
  by (induction es arbitrary: d) (auto simp: deg_get_dict_set)

lemma deg_get_count_incoming:
  "\<forall>u. distinct (edges g u) \<Longrightarrow>
   deg_get (foldl (\<lambda>d node. foldl (\<lambda>d' x. dict_set d' x (deg_get d' x + 1)) d (edges g node))
              d0 ns) v
     = deg_get d0 v + int (length (filter (\<lambda>u. v \<in> set (edges g u)) ns))"
  by (induction ns arbitrary: d0) (auto simp: deg_get_count_edges)

lemma deg_get_init: "deg_get (foldl (\<lambda>d node. dict_set d node 0) d0 ns) v
   = (if v \<in> set ns then 0 else deg_get d0 v)"
  by (induction ns arbitrary: d0) (auto simp: deg_get_dict_set)

lemma deg_get_initial:
  "wf_graph g \<Longrightarrow>
   deg_get (count_incoming g (init_in_degree (nodes g))) v
     = int (length (unprocessed_preds g [] v))"
proof -
  assume "wf_graph g"
  then have d: "\<forall>u. distinct (edges g u)" by (simp add: wf_graph_def)
  have z: "deg_get [] v = 0" by (simp add: deg_get_def)
  show ?thesis
    unfolding count_incoming_def init_in_degree_def unprocessed_preds_def
    by (simp add: deg_get_count_incoming[OF d] deg_get_init z)
qed

lemma kahn_inv_initial:
  assumes "wf_graph g"
  shows "kahn_inv g (filter (\<lambda>node. deg_get (count_incoming g (init_in_degree (nodes g))) node = 0)
                       (nodes g))
           [] (count_incoming g (init_in_degree (nodes g)))"
  unfolding kahn_inv_def using assms deg_get_initial[OF assms]
  by (auto simp: wf_graph_def)

lemma filter_neq_notin:
  "x \<notin> set xs \<Longrightarrow> filter (\<lambda>u. P u \<and> u \<noteq> x) xs = filter P xs"
  by (induction xs) auto

lemma length_filter_remove1:
  "distinct xs \<Longrightarrow> x \<in> set xs \<Longrightarrow>
   length (filter (\<lambda>u. P u \<and> u \<noteq> x) xs) + (if P x then 1 else 0) = length (filter P xs)"
  by (induction xs) (auto simp: filter_neq_notin)

lemma unprocessed_preds_snoc:
  assumes "distinct (nodes g)" "node \<in> set (nodes g)" "node \<notin> set result"
  shows "int (length (unprocessed_preds g (result @ [node]) v))
           = int (length (unprocessed_preds g result v)) - (if v \<in> set (edges g node) then 1 else 0)"
proof -
  let ?P = "\<lambda>u. v \<in> set (edges g u) \<and> u \<notin> set result"
  have "unprocessed_preds g (result @ [node]) v = filter (\<lambda>u. ?P u \<and> u \<noteq> node) (nodes g)"
    unfolding unprocessed_preds_def by (intro filter_cong) auto
  moreover have "length (filter (\<lambda>u. ?P u \<and> u \<noteq> node) (nodes g)) + (if ?P node then 1 else 0)
                   = length (filter ?P (nodes g))"
    using length_filter_remove1[OF assms(1,2)] by fast
  ultimately show ?thesis using assms(3) unfolding unprocessed_preds_def by auto
qed

lemma kahn_inv_step:
  assumes wf: "wf_graph g"
    and inv: "kahn_inv g (node # queue) result in_degree"
    and run: "decrement_dependents (edges g node) (in_degree, queue) = (in_degree', queue')"
  shows "kahn_inv g queue' (result @ [node]) in_degree'"
proof -
  let ?es = "edges g node"
  have des: "distinct ?es" and dn: "distinct (nodes g)"
    and es_nodes: "set ?es \<subseteq> set (nodes g)"
    using wf by (auto simp: wf_graph_def)
  from decrement_dependents_closed[OF des run]
  have D: "\<And>v. deg_get in_degree' v = deg_get in_degree v - (if v \<in> set ?es then 1 else 0)"
    and Q: "queue' = queue @ filter (\<lambda>v. deg_get in_degree v = 1) ?es" by simp_all
  from inv have dist: "distinct (result @ node # queue)"
    and sub: "set (result @ node # queue) \<subseteq> set (nodes g)"
    and B: "\<And>v. deg_get in_degree v = int (length (unprocessed_preds g result v))"
    and C: "\<And>v. v \<in> set (nodes g) \<Longrightarrow> v \<in> set (result @ node # queue) \<longleftrightarrow> deg_get in_degree v = 0"
    and E: "\<And>i u. i < length result \<Longrightarrow> result ! i \<in> set (edges g u) \<Longrightarrow> u \<in> set (take i result)"
    unfolding kahn_inv_def by blast+
  have node_in: "node \<in> set (nodes g)" and node_res: "node \<notin> set result"
    using dist sub by auto
  have B': "\<And>v. deg_get in_degree' v = int (length (unprocessed_preds g (result @ [node]) v))"
    using D B unprocessed_preds_snoc[OF dn node_in node_res] by presburger
  have pos: "deg_get in_degree v \<ge> 1" if "v \<in> set ?es" for v
  proof -
    have "node \<in> set (unprocessed_preds g result v)"
      using that node_in node_res by (simp add: unprocessed_preds_def)
    then have "length (unprocessed_preds g result v) \<ge> 1"
      by (cases "unprocessed_preds g result v") auto
    then show ?thesis using B[of v] by simp
  qed
  have C': "v \<in> set ((result @ [node]) @ queue') \<longleftrightarrow> deg_get in_degree' v = 0"
    if v: "v \<in> set (nodes g)" for v
  proof (cases "v \<in> set ?es")
    case True
    from pos[OF True] have "deg_get in_degree v \<noteq> 0" by simp
    then have "v \<notin> set (result @ node # queue)" using C[OF v] by blast
    then have "v \<in> set ((result @ [node]) @ queue') \<longleftrightarrow> deg_get in_degree v = 1"
      using Q True by auto
    then show ?thesis using D[of v] True by auto
  next
    case False
    then have "v \<in> set ((result @ [node]) @ queue') \<longleftrightarrow> v \<in> set (result @ node # queue)"
      using Q by auto
    then show ?thesis using C[OF v] D[of v] False by simp
  qed
  have new_fresh: "v \<notin> set (result @ node # queue)"
    if "v \<in> set (filter (\<lambda>v. deg_get in_degree v = 1) ?es)" for v
  proof -
    from that have "v \<in> set (nodes g)" "deg_get in_degree v \<noteq> 0" using es_nodes by auto
    then show ?thesis using C by blast
  qed
  have A': "distinct ((result @ [node]) @ queue')"
  proof -
    have "distinct (filter (\<lambda>v. deg_get in_degree v = 1) ?es)" using des by simp
    moreover have "set (result @ node # queue) \<inter> set (filter (\<lambda>v. deg_get in_degree v = 1) ?es) = {}"
      using new_fresh by blast
    ultimately have "distinct ((result @ node # queue) @ filter (\<lambda>v. deg_get in_degree v = 1) ?es)"
      using dist by (simp only: distinct_append)
    then show ?thesis unfolding Q by simp
  qed
  have S': "set ((result @ [node]) @ queue') \<subseteq> set (nodes g)"
    using sub es_nodes Q by auto
  have E': "u \<in> set (take i (result @ [node]))"
    if i: "i < length (result @ [node])" and e: "(result @ [node]) ! i \<in> set (edges g u)" for i u
  proof (cases "i < length result")
    case True
    then show ?thesis using E[of i u] e by (simp add: nth_append)
  next
    case False
    then have il: "i = length result" using i by simp
    then have ne: "node \<in> set (edges g u)" using e by (simp add: nth_append)
    then have un: "u \<in> set (nodes g)" using wf by (auto simp: wf_graph_def)
    have "deg_get in_degree node = 0" using C[OF node_in] by simp
    then have "unprocessed_preds g result node = []" using B[of node] by simp
    then have "u \<in> set result"
      using ne un unfolding unprocessed_preds_def filter_empty_conv by blast
    then show ?thesis using il by simp
  qed
  show ?thesis
    unfolding kahn_inv_def using A' S' B' C' E' by blast
qed

lemma kahn_loop_inv:
  "wf_graph g \<Longrightarrow> kahn_inv g queue result in_degree \<Longrightarrow>
   \<exists>in_degree'. kahn_inv g [] (kahn_loop g queue result in_degree) in_degree'"
proof (induction g queue result in_degree rule: kahn_loop.induct)
  case (1 g result in_degree)
  then show ?case by auto
next
  case (2 g node queue result in_degree)
  obtain d' q' where run: "decrement_dependents (edges g node) (in_degree, queue) = (d', q')"
    by (cases "decrement_dependents (edges g node) (in_degree, queue)") auto
  have "kahn_inv g q' (result @ [node]) d'"
    using kahn_inv_step[OF "2.prems"(1,2) run] .
  then have "\<exists>in_degree'. kahn_inv g [] (kahn_loop g q' (result @ [node]) d') in_degree'"
    using "2.IH"[OF run[symmetric] "2.prems"(1)] by blast
  then show ?case using run by simp
qed

lemma finite_edge_rel: "wf_graph g \<Longrightarrow> finite (edge_rel g)"
proof -
  assume "wf_graph g"
  then have "edge_rel g \<subseteq> set (nodes g) \<times> set (nodes g)"
    by (auto simp: wf_graph_def edge_rel_def)
  then show ?thesis by (rule finite_subset) simp
qed

lemma kahn_final_all:
  assumes wf: "wf_graph g" and ac: "acyclic (edge_rel g)"
    and inv: "kahn_inv g [] result in_degree"
  shows "set result = set (nodes g)"
proof (rule ccontr)
  assume ne: "set result \<noteq> set (nodes g)"
  from inv have sub: "set result \<subseteq> set (nodes g)"
    and B: "\<And>v. deg_get in_degree v = int (length (unprocessed_preds g result v))"
    and C: "\<And>v. v \<in> set (nodes g) \<Longrightarrow> v \<in> set result \<longleftrightarrow> deg_get in_degree v = 0"
    unfolding kahn_inv_def by auto
  let ?R = "set (nodes g) - set result"
  from ne sub obtain x where x: "x \<in> ?R" by blast
  have "wf (edge_rel g)" using finite_acyclic_wf[OF finite_edge_rel[OF wf] ac] .
  from wfE_min[OF this x] obtain z where z: "z \<in> ?R" "\<And>y. (y, z) \<in> edge_rel g \<Longrightarrow> y \<notin> ?R"
    by blast
  from z(1) C have "deg_get in_degree z \<noteq> 0" by blast
  then have "unprocessed_preds g result z \<noteq> []" using B[of z] by auto
  then obtain u where "u \<in> set (unprocessed_preds g result z)"
    by (cases "unprocessed_preds g result z") auto
  then have "u \<in> ?R" "(u, z) \<in> edge_rel g"
    by (auto simp: unprocessed_preds_def edge_rel_def)
  with z(2) show False by blast
qed

lemma kahn_result:
  assumes wf: "wf_graph g" and ac: "acyclic (edge_rel g)"
  defines "in_degree \<equiv> count_incoming g (init_in_degree (nodes g))"
  defines "result \<equiv> kahn_loop g (filter (\<lambda>node. deg_get in_degree node = 0) (nodes g)) [] in_degree"
  shows "distinct result \<and> set result = set (nodes g) \<and> length result = length (nodes g) \<and>
         (\<forall>i < length result. \<forall>j < length result.
            result ! j \<in> set (edges g (result ! i)) \<longrightarrow> i < j)"
proof -
  have "kahn_inv g (filter (\<lambda>node. deg_get in_degree node = 0) (nodes g)) [] in_degree"
    unfolding in_degree_def by (rule kahn_inv_initial[OF wf])
  then obtain d' where inv: "kahn_inv g [] result d'"
    using kahn_loop_inv[OF wf] unfolding result_def by blast
  then have dist: "distinct result"
    and E: "\<And>i u. i < length result \<Longrightarrow> result ! i \<in> set (edges g u) \<Longrightarrow> u \<in> set (take i result)"
    unfolding kahn_inv_def by auto
  have all: "set result = set (nodes g)" using kahn_final_all[OF wf ac inv] .
  have dn: "distinct (nodes g)" using wf by (simp add: wf_graph_def)
  have len: "length result = length (nodes g)"
    using distinct_card[OF dist] distinct_card[OF dn] all by simp
  have ord: "i < j" if i: "i < length result" and j: "j < length result"
    and e: "result ! j \<in> set (edges g (result ! i))" for i j
  proof -
    from E[OF j e] have "result ! i \<in> set (take j result)" .
    then obtain k where k: "k < length (take j result)" "take j result ! k = result ! i"
      by (auto simp: in_set_conv_nth)
    then have kj: "k < j" and "result ! k = result ! i" by simp_all
    then have "k = i" using dist i j by (simp add: nth_eq_iff_index_eq)
    with kj show ?thesis by simp
  qed
  show ?thesis using dist all len ord by blast
qed

text \<open>
  Claim C1. On every graph the engine can build: when the edge relation is acyclic,
  \<open>topological_sort\<close> returns an ordering that holds each node exactly once and puts
  \<open>u\<close> before \<open>v\<close> for every forward edge from \<open>u\<close> to \<open>v\<close>; when the graph has a
  cycle, it raises the cycle error carrying the non-empty list that \<open>find_cycles\<close>
  returned, whose elements are cycles of the graph.
\<close>

theorem topological_sort_correct:
  "wf_graph g \<Longrightarrow>
   (acyclic (edge_rel g) \<longrightarrow>
      (\<exists>order. topological_sort g = Inr order \<and> distinct order \<and> set order = set (nodes g) \<and>
         (\<forall>i < length order. \<forall>j < length order.
            order ! j \<in> set (edges g (order ! i)) \<longrightarrow> i < j))) \<and>
   (\<not> acyclic (edge_rel g) \<longrightarrow>
      (\<exists>found. topological_sort g = Inl (CyclesDetected found) \<and> found \<noteq> [] \<and>
         find_cycles g = Inr found \<and> (\<forall>c \<in> set found. is_cycle g c)))"
proof -
  assume wf: "wf_graph g"
  obtain found where found: "find_cycles g = Inr found"
    "found \<noteq> [] \<longleftrightarrow> \<not> acyclic (edge_rel g)" "\<forall>c \<in> set found. is_cycle g c"
    using find_cycles_spec[OF wf] by blast
  have "\<exists>order. topological_sort g = Inr order \<and> distinct order \<and> set order = set (nodes g) \<and>
         (\<forall>i < length order. \<forall>j < length order.
            order ! j \<in> set (edges g (order ! i)) \<longrightarrow> i < j)"
    if ac: "acyclic (edge_rel g)"
  proof (cases "nodes g = []")
    case True
    then show ?thesis by (simp add: topological_sort_def)
  next
    case False
    have f: "found = []" using found(2) ac by blast
    let ?d = "count_incoming g (init_in_degree (nodes g))"
    let ?r = "kahn_loop g (filter (\<lambda>node. deg_get ?d node = 0) (nodes g)) [] ?d"
    have ts: "topological_sort g = Inr ?r"
      using False found(1) f kahn_result[OF wf ac]
      by (simp add: topological_sort_def Let_def)
    show ?thesis using ts kahn_result[OF wf ac] by simp
  qed
  moreover have "\<exists>found. topological_sort g = Inl (CyclesDetected found) \<and> found \<noteq> [] \<and>
         find_cycles g = Inr found \<and> (\<forall>c \<in> set found. is_cycle g c)"
    if nac: "\<not> acyclic (edge_rel g)"
  proof -
    from nac obtain u where "(u, u) \<in> (edge_rel g)\<^sup>+" unfolding acyclic_def by blast
    then have "u \<in> set (nodes g)" using edge_rel_in_nodes[OF wf] by blast
    then have "nodes g \<noteq> []" by auto
    moreover have "found \<noteq> []" using found(2) nac by blast
    ultimately have "topological_sort g = Inl (CyclesDetected found)"
      using found(1) by (simp add: topological_sort_def)
    then show ?thesis using \<open>found \<noteq> []\<close> found(1,3) by blast
  qed
  ultimately show ?thesis by blast
qed

theorem topological_sort_correct_witness:
  "wf_graph (dependency_graph ex_simple_sim) \<and>
   acyclic (edge_rel (dependency_graph ex_simple_sim)) \<and>
   topological_sort (dependency_graph ex_simple_sim) = Inr [''input_a'', ''input_b'', ''output_c''] \<and>
   wf_graph (dependency_graph ex_cycle_sim) \<and>
   \<not> acyclic (edge_rel (dependency_graph ex_cycle_sim)) \<and>
   topological_sort (dependency_graph ex_cycle_sim)
     = Inl (CyclesDetected [[''attr_a'', ''attr_b'', ''attr_a'']])"
proof -
  have a: "acyclic (edge_rel (dependency_graph ex_simple_sim))"
    using topological_sort_correct[OF ex_simple_wf] ex_simple_find_cycles
    by (cases "acyclic (edge_rel (dependency_graph ex_simple_sim))") auto
  have b: "\<not> acyclic (edge_rel (dependency_graph ex_cycle_sim))"
    using topological_sort_correct[OF ex_cycle_wf] ex_cycle_find_cycles
    by (cases "acyclic (edge_rel (dependency_graph ex_cycle_sim))")
       (auto simp: topological_sort_def ex_cycle_graph)
  show ?thesis
    using a b topological_sort_correct[OF ex_simple_wf] topological_sort_correct[OF ex_cycle_wf]
      ex_simple_wf ex_cycle_wf ex_simple_topological_sort ex_cycle_find_cycles
    by auto
qed

subsection \<open>Calculation failures in the acyclic pass\<close>















subsection \<open>Scenario overrides\<close>

lemma find_apply_override:
  "find_attribute_by_id (apply_override bs ov) k =
     map_option (\<lambda>a. if k = fst ov then a\<lparr>attr_value := snd ov\<rparr> else a)
       (find_attribute_by_id bs k)"
  by (cases "find_attribute_by_id bs k")
     (auto simp: apply_override_def find_store_attribute split: option.splits)

lemma find_apply_overrides:
  "find_attribute_by_id (foldl apply_override bs ovs) k =
     map_option (\<lambda>a. case map_of (rev ovs) k of None \<Rightarrow> a | Some v \<Rightarrow> a\<lparr>attr_value := v\<rparr>)
       (find_attribute_by_id bs k)"
proof (induction ovs arbitrary: bs)
  case Nil
  then show ?case by (simp add: option.map_ident)
next
  case (Cons ov ovs)
  show ?case
    by (cases "find_attribute_by_id bs k"; cases ov)
       (auto simp: Cons find_apply_override map_add_def split: option.splits)
qed

lemma apply_override_unknown:
  "find_attribute_by_id bs (fst ov) = None \<Longrightarrow> apply_override bs ov = bs"
  by (simp add: apply_override_def)

lemma apply_overrides_drop_unknown:
  "(\<And>k. (find_attribute_by_id bs k = None) = (find_attribute_by_id bs0 k = None)) \<Longrightarrow>
   foldl apply_override bs (filter (\<lambda>ov. find_attribute_by_id bs0 (fst ov) \<noteq> None) ovs)
     = foldl apply_override bs ovs"
proof (induction ovs arbitrary: bs)
  case Nil
  then show ?case by simp
next
  case (Cons ov ovs)
  show ?case
  proof (cases "find_attribute_by_id bs0 (fst ov) = None")
    case True
    then have "apply_override bs ov = bs" using Cons.prems apply_override_unknown by simp
    then show ?thesis using True Cons by simp
  next
    case False
    have "(find_attribute_by_id (apply_override bs ov) k = None) = (find_attribute_by_id bs0 k = None)"
      for k using Cons.prems[of k] by (simp add: find_apply_override)
    from Cons.IH[OF this] False show ?thesis by simp
  qed
qed

lemma nodes_ignore_overrides:
  "detect_cycles g (s\<lparr>state_overrides := x\<rparr>)
     = map_sum id (\<lambda>t. t\<lparr>state_overrides := x\<rparr>) (detect_cycles g s)"
  "route_after_cycle_detection (s\<lparr>state_overrides := x\<rparr>) = route_after_cycle_detection s"
  "resolve_cycles g bs (s\<lparr>state_overrides := x\<rparr>)
     = apsnd (\<lambda>t. t\<lparr>state_overrides := x\<rparr>) (resolve_cycles g bs s)"
  "calculate_attributes g bs (s\<lparr>state_overrides := x\<rparr>)
     = apsnd (\<lambda>t. t\<lparr>state_overrides := x\<rparr>) (calculate_attributes g bs s)"
  "validate_results (s\<lparr>state_overrides := x\<rparr>) = (validate_results s)\<lparr>state_overrides := x\<rparr>"
  by (auto simp: detect_cycles_def route_after_cycle_detection_def resolve_cycles_def
        calculate_attributes_def validate_results_def Let_def split: sum.splits prod.splits)

lemma workflow_unfold:
  "workflow g bs s =
     workflow_from_detect_cycles g (foldl apply_override bs (state_overrides s)) (s\<lparr>status := ''initialized''\<rparr>)"
  by (simp add: workflow_def workflow_from_detect_cycles_def initialize_simulation_def)

lemma rest_ignores_overrides:
  "workflow_from_detect_cycles g bs1 (t\<lparr>state_overrides := x\<rparr>)
     = apsnd (map_sum id (\<lambda>u. u\<lparr>state_overrides := x\<rparr>)) (workflow_from_detect_cycles g bs1 t)"
proof (cases "detect_cycles g t")
  case (Inl e)
  then show ?thesis by (simp add: workflow_from_detect_cycles_def nodes_ignore_overrides(1))
next
  case (Inr t2)
  show ?thesis
  proof (cases "route_after_cycle_detection t2 = ''resolve_cycles''")
    case True
    obtain bs3 t3 where r: "resolve_cycles g bs1 t2 = (bs3, t3)"
      by (cases "resolve_cycles g bs1 t2") auto
    obtain bs4 t4 where c: "calculate_attributes g bs3 t3 = (bs4, t4)"
      by (cases "calculate_attributes g bs3 t3") auto
    show ?thesis
      using Inr True r c
      by (simp add: workflow_from_detect_cycles_def nodes_ignore_overrides)
  next
    case False
    obtain bs4 t4 where c: "calculate_attributes g bs1 t2 = (bs4, t4)"
      by (cases "calculate_attributes g bs1 t2") auto
    show ?thesis
      using Inr False c
      by (simp add: workflow_from_detect_cycles_def nodes_ignore_overrides)
  qed
qed

lemma run_simulation_overrides:
  assumes "foldl apply_override (blocks sim) ovs = foldl apply_override (blocks sim) ovs'"
  shows "snd (run_simulation (sim\<lparr>scenario_overrides := ovs\<rparr>))
           = snd (run_simulation (sim\<lparr>scenario_overrides := ovs'\<rparr>))"
proof -
  let ?t = "(initial_state sim)\<lparr>status := ''initialized''\<rparr>"
  let ?bs1 = "foldl apply_override (blocks sim) ovs'"
  have init: "initial_state (sim\<lparr>scenario_overrides := y\<rparr>)
                = (initial_state sim)\<lparr>state_overrides := y\<rparr>" for y
    by (simp add: initial_state_def)
  have w: "workflow (dependency_graph sim) (blocks sim) ((initial_state sim)\<lparr>state_overrides := y\<rparr>)
             = workflow_from_detect_cycles (dependency_graph sim) (foldl apply_override (blocks sim) y)
                 (?t\<lparr>state_overrides := y\<rparr>)" for y
  proof -
    have e1: "state_overrides ((initial_state sim)\<lparr>state_overrides := y\<rparr>) = y" by simp
    have e2: "(initial_state sim)\<lparr>state_overrides := y\<rparr>\<lparr>status := ''initialized''\<rparr>
            = ?t\<lparr>state_overrides := y\<rparr>"
      by (cases "initial_state sim") simp
    show ?thesis unfolding workflow_unfold e1 e2 ..
  qed
  obtain bs r where a: "workflow_from_detect_cycles (dependency_graph sim) ?bs1 ?t = (bs, r)"
    by (cases "workflow_from_detect_cycles (dependency_graph sim) ?bs1 ?t") auto
  show ?thesis
    unfolding run_simulation_def init Let_def
    by (cases r)
       (simp_all add: w assms rest_ignores_overrides a)
qed

lemma ex_simple_blocks:
  "blocks ex_simple_sim =
     [(''test_001'',
       \<lparr>block_id = ''test_001'', block_name = ''Test Block'',
        attributes = [(''input_a'', ex_input_a), (''input_b'', ex_input_b), (''output_c'', ex_output_c)],
        block_metadata = Map.empty\<rparr>)]"
  by (simp add: ex_simple_sim_def add_block_def new_simulation_def add_attribute_def
        ex_input_a_def ex_input_b_def ex_output_c_def ex_block_def Let_def)

text \<open>
  Claim C2, as amended. During Initialize, every override whose id is the id of a
  registered attribute, of either kind, is assigned to that attribute's value, and the
  attributes whose ids have no override keep theirs. An override whose id is unknown
  is skipped: the attributes after Initialize, and the record that the run returns,
  are those of the same run without that override.
\<close>

theorem overrides_assign_registered_attributes:
  "distinct (map fst (scenario_overrides sim)) \<Longrightarrow>
   (\<forall>ov \<in> set (scenario_overrides sim). \<forall>attr.
      find_attribute_by_id (blocks sim) (fst ov) = Some attr \<longrightarrow>
      find_attribute_by_id (fst (initialize_simulation (blocks sim) (initial_state sim))) (fst ov)
        = Some (attr\<lparr>attr_value := snd ov\<rparr>)) \<and>
   (\<forall>k. k \<notin> fst ` set (scenario_overrides sim) \<longrightarrow>
      find_attribute_by_id (fst (initialize_simulation (blocks sim) (initial_state sim))) k
        = find_attribute_by_id (blocks sim) k) \<and>
   fst (initialize_simulation (blocks sim) (initial_state sim))
     = fst (initialize_simulation (blocks sim)
         (initial_state (sim\<lparr>scenario_overrides :=
            filter (\<lambda>ov. find_attribute_by_id (blocks sim) (fst ov) \<noteq> None)
              (scenario_overrides sim)\<rparr>))) \<and>
   snd (run_simulation sim)
     = snd (run_simulation (sim\<lparr>scenario_overrides :=
         filter (\<lambda>ov. find_attribute_by_id (blocks sim) (fst ov) \<noteq> None)
           (scenario_overrides sim)\<rparr>))"
proof -
  assume d: "distinct (map fst (scenario_overrides sim))"
  let ?ovs = "scenario_overrides sim"
  let ?known = "filter (\<lambda>ov. find_attribute_by_id (blocks sim) (fst ov) \<noteq> None) ?ovs"
  have init: "fst (initialize_simulation (blocks sim) (initial_state sim))
                = foldl apply_override (blocks sim) ?ovs"
    by (simp add: initialize_simulation_def initial_state_def)
  have a: "find_attribute_by_id (foldl apply_override (blocks sim) ?ovs) (fst ov)
             = Some (attr\<lparr>attr_value := snd ov\<rparr>)"
    if "ov \<in> set ?ovs" "find_attribute_by_id (blocks sim) (fst ov) = Some attr" for ov attr
  proof -
    have "distinct (map fst (rev ?ovs))" using d by (simp add: rev_map[symmetric])
    moreover have "(fst ov, snd ov) \<in> set (rev ?ovs)" using that(1) by simp
    ultimately have "map_of (rev ?ovs) (fst ov) = Some (snd ov)" by (rule map_of_is_SomeI)
    then show ?thesis using that(2) by (simp add: find_apply_overrides)
  qed
  have b: "find_attribute_by_id (foldl apply_override (blocks sim) ?ovs) k
             = find_attribute_by_id (blocks sim) k" if "k \<notin> fst ` set ?ovs" for k
  proof -
    have "map_of (rev ?ovs) k = None" using that by (simp add: map_of_eq_None_iff)
    then show ?thesis by (simp add: find_apply_overrides option.map_ident)
  qed
  have c: "foldl apply_override (blocks sim) ?known = foldl apply_override (blocks sim) ?ovs"
    by (rule apply_overrides_drop_unknown) simp
  have c': "fst (initialize_simulation (blocks sim)
                   (initial_state (sim\<lparr>scenario_overrides := ?known\<rparr>)))
              = foldl apply_override (blocks sim) ?known"
    by (simp add: initialize_simulation_def initial_state_def)
  have r: "snd (run_simulation (sim\<lparr>scenario_overrides := ?ovs\<rparr>))
             = snd (run_simulation (sim\<lparr>scenario_overrides := ?known\<rparr>))"
    by (rule run_simulation_overrides) (rule c[symmetric])
  show ?thesis using a b c c' r unfolding init by simp
qed

theorem overrides_assign_registered_attributes_witness:
  "distinct (map fst (scenario_overrides ex_override_sim)) \<and>
   (''input_a'', Some 7) \<in> set (scenario_overrides ex_override_sim) \<and>
   ''input_b'' \<notin> fst ` set (scenario_overrides ex_override_sim) \<and>
   find_attribute_by_id (blocks ex_override_sim) ''input_a'' = Some ex_input_a \<and>
   find_attribute_by_id (fst (initialize_simulation (blocks ex_override_sim)
       (initial_state ex_override_sim))) ''input_a'' = Some (ex_input_a\<lparr>attr_value := Some 7\<rparr>) \<and>
   find_attribute_by_id (fst (initialize_simulation (blocks ex_override_sim)
       (initial_state ex_override_sim))) ''input_b'' = Some ex_input_b \<and>
   snd (run_simulation ex_override_sim)
     = snd (run_simulation (ex_override_sim\<lparr>scenario_overrides := [(''input_a'', Some 7)]\<rparr>)) \<and>
   result_calculated_values (snd (run_simulation ex_override_sim))
     = Some [(''input_a'', Some 7), (''input_b'', Some 20), (''output_c'', Some 27)]"
proof -
  have ovs: "scenario_overrides ex_override_sim = [(''input_a'', Some 7), (''ghost'', Some 1)]"
    by (simp add: ex_override_sim_def set_scenario_override_def ex_simple_sim_def add_block_def
          new_simulation_def Let_def)
  have bs: "blocks ex_override_sim = blocks ex_simple_sim"
    by (simp add: ex_override_sim_def set_scenario_override_def)
  have f: "find_attribute_by_id (blocks ex_simple_sim) ''input_a'' = Some ex_input_a"
    "find_attribute_by_id (blocks ex_simple_sim) ''input_b'' = Some ex_input_b"
    "find_attribute_by_id (blocks ex_simple_sim) ''ghost'' = None"
    by (simp_all add: ex_simple_blocks)
  have v: "result_calculated_values (snd (run_simulation ex_override_sim))
     = Some [(''input_a'', Some 7), (''input_b'', Some 20), (''output_c'', Some 27)]"
    by code_simp
  have d: "distinct (map fst (scenario_overrides ex_override_sim))" by (simp add: ovs)
  have known: "filter (\<lambda>ov. find_attribute_by_id (blocks ex_override_sim) (fst ov) \<noteq> None)
                 (scenario_overrides ex_override_sim) = [(''input_a'', Some 7)]"
    by (simp add: ovs bs f)
  note T = overrides_assign_registered_attributes[OF d, unfolded known]
  have m: "(''input_a'', Some 7) \<in> set (scenario_overrides ex_override_sim)" by (simp add: ovs)
  have n: "''input_b'' \<notin> fst ` set (scenario_overrides ex_override_sim)" by (simp add: ovs)
  have fa: "find_attribute_by_id (blocks ex_override_sim) ''input_a'' = Some ex_input_a"
    and fb: "find_attribute_by_id (blocks ex_override_sim) ''input_b'' = Some ex_input_b"
    using f bs by simp_all
  have c1: "find_attribute_by_id (fst (initialize_simulation (blocks ex_override_sim)
       (initial_state ex_override_sim))) ''input_a'' = Some (ex_input_a\<lparr>attr_value := Some 7\<rparr>)"
    using T m fa by fastforce
  have c2: "find_attribute_by_id (fst (initialize_simulation (blocks ex_override_sim)
       (initial_state ex_override_sim))) ''input_b'' = Some ex_input_b"
    using T n fb by metis
  have c3: "snd (run_simulation ex_override_sim)
     = snd (run_simulation (ex_override_sim\<lparr>scenario_overrides := [(''input_a'', Some 7)]\<rparr>))"
    using T by blast
  show ?thesis using d m n fa c1 c2 c3 v by blast
qed

text \<open>
  The claim as stated has an override of a calculated attribute skipped. In the
  acyclic test model an override of the calculated \<open>output_c\<close> is written to its
  value by Initialize; in the cyclic test model an override of the calculated
  \<open>attr_b\<close> changes the values that the run returns.
\<close>

theorem override_on_calculated_counterexample:
  "map_option attribute_type (find_attribute_by_id (blocks ex_simple_sim) ''output_c'') = Some CALCULATED \<and>
   map_option attr_value (find_attribute_by_id (blocks ex_simple_sim) ''output_c'') = Some None \<and>
   map_option attr_value
     (find_attribute_by_id
        (fst (initialize_simulation (blocks ex_simple_sim)
                (initial_state (set_scenario_override ex_simple_sim ''output_c'' (Some 999)))))
        ''output_c'') = Some (Some 999) \<and>
   map_option attribute_type (find_attribute_by_id (blocks ex_cycle_sim) ''attr_b'') = Some CALCULATED \<and>
   result_calculated_values (snd (run_simulation ex_cycle_sim))
     = Some [(''attr_a'', Some (107811 / 1000)), (''attr_b'', Some (9801 / 100))] \<and>
   result_calculated_values
     (snd (run_simulation (set_scenario_override ex_cycle_sim ''attr_b'' (Some 200))))
     = Some [(''attr_a'', Some (215622 / 1000)), (''attr_b'', Some (19602 / 100))]"
  by code_simp

subsection \<open>The reported number of resolved cycles\<close>

text \<open>
  Claim C5. \<open>cycles_resolved\<close> should be the number of cycles that \<open>find_cycles\<close>
  detected in the run. On the cyclic test model one cycle is detected and resolved, and
  the returned record reports \<open>0\<close>: the count is read from the state that
  \<open>run_simulation\<close> built before the workflow ran, whose cycle list is empty.
\<close>

theorem cycles_resolved_reports_zero:
  "map_sum id length (find_cycles (dependency_graph ex_cycle_sim)) = Inr 1 \<and>
   result_status (snd (run_simulation ex_cycle_sim)) = ''completed'' \<and>
   result_cycles_resolved (snd (run_simulation ex_cycle_sim)) = Some 0"
  by code_simp

subsection \<open>Oscillation in the iterative solver\<close>

lemma recent_four:
  fixes h :: "real list"
  assumes l: "4 \<le> length h"
  shows "(let recent = drop (length h - 4) h
          in \<bar>recent ! 0 - recent ! 2\<bar> < 1 / 10 \<and> \<bar>recent ! 1 - recent ! 3\<bar> < 1 / 10)
        \<longleftrightarrow> (\<bar>h ! (length h - 1) - h ! (length h - 3)\<bar> < 1 / 10 \<and>
             \<bar>h ! (length h - 2) - h ! (length h - 4)\<bar> < 1 / 10)"
proof -
  have n0: "drop (length h - 4) h ! 0 = h ! (length h - 4)"
    using l by (subst nth_drop) simp_all
  have n1: "drop (length h - 4) h ! 1 = h ! (length h - 3)"
  proof -
    have "length h - 4 + 1 = length h - 3" using l by simp
    then show ?thesis using l nth_drop[of "length h - 4" h 1] by simp
  qed
  have n2: "drop (length h - 4) h ! 2 = h ! (length h - 2)"
  proof -
    have "length h - 4 + 2 = length h - 2" using l by simp
    then show ?thesis using l nth_drop[of "length h - 4" h 2] by simp
  qed
  have n3: "drop (length h - 4) h ! 3 = h ! (length h - 1)"
  proof -
    have "length h - 4 + 3 = length h - 1" using l by simp
    then show ?thesis using l nth_drop[of "length h - 4" h 3] by simp
  qed
  have c: "\<bar>h ! (length h - 4) - h ! (length h - 2)\<bar> = \<bar>h ! (length h - 2) - h ! (length h - 4)\<bar>"
          "\<bar>h ! (length h - 3) - h ! (length h - 1)\<bar> = \<bar>h ! (length h - 1) - h ! (length h - 3)\<bar>"
    by (simp_all add: abs_minus_commute)
  show ?thesis unfolding Let_def n0 n1 n2 n3 c by blast
qed

lemma detect_oscillation_iff:
  "detect_oscillation value_history iteration \<longleftrightarrow>
     4 \<le> iteration \<and>
     (\<exists>kv \<in> set value_history. 4 \<le> length (snd kv) \<and>
        \<bar>snd kv ! (length (snd kv) - 1) - snd kv ! (length (snd kv) - 3)\<bar> < 1 / 10 \<and>
        \<bar>snd kv ! (length (snd kv) - 2) - snd kv ! (length (snd kv) - 4)\<bar> < 1 / 10)"
proof (cases "iteration < 4")
  case True
  then show ?thesis by (simp add: detect_oscillation_def)
next
  case False
  have "(\<exists>kv \<in> set value_history. case kv of (attr_id, h) \<Rightarrow>
           length h \<ge> 4 \<and>
             (let recent = drop (length h - 4) h
              in \<bar>recent ! 0 - recent ! 2\<bar> < 1 / 10 \<and> \<bar>recent ! 1 - recent ! 3\<bar> < 1 / 10))
        \<longleftrightarrow> (\<exists>kv \<in> set value_history. 4 \<le> length (snd kv) \<and>
        \<bar>snd kv ! (length (snd kv) - 1) - snd kv ! (length (snd kv) - 3)\<bar> < 1 / 10 \<and>
        \<bar>snd kv ! (length (snd kv) - 2) - snd kv ! (length (snd kv) - 4)\<bar> < 1 / 10)"
    (is "(\<exists>kv \<in> _. ?A kv) \<longleftrightarrow> (\<exists>kv \<in> _. ?B kv)")
  proof -
    have "?A kv \<longleftrightarrow> ?B kv" for kv
    proof (cases kv)
      case (Pair k h)
      show ?thesis
      proof (cases "4 \<le> length h")
        case True
        show ?thesis
          unfolding Pair prod.case snd_conv using True recent_four[OF True] by blast
      next
        case False
        then show ?thesis unfolding Pair prod.case snd_conv by blast
      qed
    qed
    then show ?thesis by (rule bex_cong[OF refl])
  qed
  then show ?thesis using False
    unfolding detect_oscillation_def list_ex_iff by simp
qed

lemma find_stabilize_one:
  "find_attribute_by_id (stabilize_one value_history bs c) k =
     map_option (\<lambda>attr. if k = c \<and> 2 \<le> length (history_of value_history k)
        then attr\<lparr>attr_value := Some (round2 (sum_list (last_up_to_4 (history_of value_history k))
                 / real (length (last_up_to_4 (history_of value_history k)))))\<rparr>
        else attr)
       (find_attribute_by_id bs k)"
  by (cases "find_attribute_by_id bs k")
     (auto simp: stabilize_one_def history_of_def last_up_to_4_def Let_def find_store_attribute
           split: option.splits)

lemma find_stabilize:
  "find_attribute_by_id (stabilize_oscillating_values bs cycle value_history) k =
     map_option (\<lambda>attr. if k \<in> set cycle \<and> 2 \<le> length (history_of value_history k)
        then attr\<lparr>attr_value := Some (round2 (sum_list (last_up_to_4 (history_of value_history k))
                 / real (length (last_up_to_4 (history_of value_history k)))))\<rparr>
        else attr)
       (find_attribute_by_id bs k)"
  unfolding stabilize_oscillating_values_def
proof (induction cycle arbitrary: bs)
  case Nil
  then show ?case by (simp add: option.map_ident)
next
  case (Cons c cs)
  show ?case
    by (cases "find_attribute_by_id bs k") (auto simp: Cons find_stabilize_one)
qed

text \<open>
  Claim C4, as amended. After a pass of the iterative solver that did not converge,
  oscillation is declared exactly when the iteration number (counted from 0) is at
  least 4 and some attribute has at least 4 history entries \<open>h\<close> with
  \<open>|h[-1] - h[-3]| < 0.1\<close> and \<open>|h[-2] - h[-4]| < 0.1\<close>. When it is declared the
  iteration stops, whatever iterations were left, and its result is the stabilized
  model: every registered attribute of the cycle that has at least 2 history entries
  has its value set to the mean of its last up-to-4 entries rounded to 2 decimals, and
  every other attribute is left as the pass left it.
\<close>

theorem oscillation_check_and_stabilization:
  "pass = foldl iterate_one (bs, value_history, True) cycle \<Longrightarrow> \<not> snd (snd pass) \<Longrightarrow>
   (detect_oscillation (fst (snd pass)) iteration \<longleftrightarrow>
      4 \<le> iteration \<and>
      (\<exists>kv \<in> set (fst (snd pass)). 4 \<le> length (snd kv) \<and>
         \<bar>snd kv ! (length (snd kv) - 1) - snd kv ! (length (snd kv) - 3)\<bar> < 1 / 10 \<and>
         \<bar>snd kv ! (length (snd kv) - 2) - snd kv ! (length (snd kv) - 4)\<bar> < 1 / 10)) \<and>
   (detect_oscillation (fst (snd pass)) iteration \<longrightarrow>
      iterate_cycle (iteration # later) cycle (bs, value_history)
        = stabilize_oscillating_values (fst pass) cycle (fst (snd pass)) \<and>
      (\<forall>k attr. find_attribute_by_id (fst pass) k = Some attr \<longrightarrow>
         find_attribute_by_id (iterate_cycle (iteration # later) cycle (bs, value_history)) k =
           Some (if k \<in> set cycle \<and> 2 \<le> length (history_of (fst (snd pass)) k)
                 then attr\<lparr>attr_value :=
                        Some (round2 (sum_list (last_up_to_4 (history_of (fst (snd pass)) k))
                               / real (length (last_up_to_4 (history_of (fst (snd pass)) k)))))\<rparr>
                 else attr)))"
proof -
  assume p: "pass = foldl iterate_one (bs, value_history, True) cycle" and nc: "\<not> snd (snd pass)"
  obtain bs' h' c where e: "foldl iterate_one (bs, value_history, True) cycle = (bs', h', c)"
    by (rule prod_cases3)
  have "\<not> c" using p nc e by simp
  then have pass: "foldl iterate_one (bs, value_history, True) cycle = (bs', h', False)"
    using e by simp
  have proj: "fst pass = bs'" "fst (snd pass) = h'" using p pass by simp_all
  have stop: "iterate_cycle (iteration # later) cycle (bs, value_history)
                = stabilize_oscillating_values bs' cycle h'"
    if d: "detect_oscillation h' iteration"
  proof -
    from d have "4 \<le> iteration" by (simp add: detect_oscillation_iff)
    then have "3 \<le> iteration" by simp
    then show ?thesis using pass d by simp
  qed
  have B: "find_attribute_by_id (iterate_cycle (iteration # later) cycle (bs, value_history)) k =
           Some (if k \<in> set cycle \<and> 2 \<le> length (history_of h' k)
                 then attr\<lparr>attr_value :=
                        Some (round2 (sum_list (last_up_to_4 (history_of h' k))
                               / real (length (last_up_to_4 (history_of h' k)))))\<rparr>
                 else attr)"
    if "detect_oscillation h' iteration" "find_attribute_by_id bs' k = Some attr" for k attr
    using stop[OF that(1)] that(2) by (simp add: find_stabilize)
  show ?thesis
    unfolding proj using detect_oscillation_iff[of h' iteration] stop B by blast
qed

theorem oscillation_check_and_stabilization_witness:
  "\<not> snd (snd (foldl iterate_one
       (seed_cycle (blocks ex_osc_sim) [''osc'', ''once'', ''osc''],
        [(''osc'', [0, 100, 0, 100])], True) [''osc'', ''once'', ''osc''])) \<and>
   detect_oscillation (fst (snd (foldl iterate_one
       (seed_cycle (blocks ex_osc_sim) [''osc'', ''once'', ''osc''],
        [(''osc'', [0, 100, 0, 100])], True) [''osc'', ''once'', ''osc'']))) 4 \<and>
   iterate_cycle (4 # [5]) [''osc'', ''once'', ''osc'']
       (seed_cycle (blocks ex_osc_sim) [''osc'', ''once'', ''osc''], [(''osc'', [0, 100, 0, 100])])
     = stabilize_oscillating_values
         (fst (foldl iterate_one
            (seed_cycle (blocks ex_osc_sim) [''osc'', ''once'', ''osc''],
             [(''osc'', [0, 100, 0, 100])], True) [''osc'', ''once'', ''osc'']))
         [''osc'', ''once'', ''osc'']
         (fst (snd (foldl iterate_one
            (seed_cycle (blocks ex_osc_sim) [''osc'', ''once'', ''osc''],
             [(''osc'', [0, 100, 0, 100])], True) [''osc'', ''once'', ''osc'']))) \<and>
   map_option attr_value (find_attribute_by_id
      (iterate_cycle (4 # [5]) [''osc'', ''once'', ''osc'']
         (seed_cycle (blocks ex_osc_sim) [''osc'', ''once'', ''osc''], [(''osc'', [0, 100, 0, 100])]))
      ''osc'') = Some (Some 50)"
proof -
  let ?pass = "foldl iterate_one
       (seed_cycle (blocks ex_osc_sim) [''osc'', ''once'', ''osc''],
        [(''osc'', [0, 100, 0, 100])], True) [''osc'', ''once'', ''osc'']"
  have f1: "\<not> snd (snd ?pass)" by code_simp
  have f2: "detect_oscillation (fst (snd ?pass)) 4" by code_simp
  have f3: "map_option attr_value (find_attribute_by_id
      (iterate_cycle (4 # [5]) [''osc'', ''once'', ''osc'']
         (seed_cycle (blocks ex_osc_sim) [''osc'', ''once'', ''osc''], [(''osc'', [0, 100, 0, 100])]))
      ''osc'') = Some (Some 50)" by code_simp
  from oscillation_check_and_stabilization[OF refl f1, of 4 "[5]"] f2
  have "iterate_cycle (4 # [5]) [''osc'', ''once'', ''osc'']
       (seed_cycle (blocks ex_osc_sim) [''osc'', ''once'', ''osc''], [(''osc'', [0, 100, 0, 100])])
     = stabilize_oscillating_values (fst ?pass) [''osc'', ''once'', ''osc''] (fst (snd ?pass))"
    by blast
  then show ?thesis using f1 f2 f3 by blast
qed

text \<open>
  The claim as stated sets every attribute of the cycle. In the run below oscillation
  is declared (\<open>osc\<close> ends at 50, the mean of 0, 100, 0, 100), while \<open>once\<close>, an
  attribute of the cycle with the single history entry 0.123, keeps 0.123 and not the
  rounded mean 0.12.
\<close>

theorem stabilization_skips_short_history_counterexample:
  "find_cycles (dependency_graph ex_osc_sim) = Inr [[''osc'', ''once'', ''osc'']] \<and>
   result_status (snd (run_simulation ex_osc_sim)) = ''completed'' \<and>
   result_calculated_values (snd (run_simulation ex_osc_sim))
     = Some [(''osc'', Some 50), (''once'', Some (123 / 1000))] \<and>
   history_of (fst (snd (foldl iterate_one
       (seed_cycle (blocks ex_osc_sim) [''osc'', ''once'', ''osc''], [], True)
       [''osc'', ''once'', ''osc'']))) ''once'' = [123 / 1000] \<and>
   round2 (sum_list (last_up_to_4 [123 / 1000]) / real (length (last_up_to_4 [123 / 1000])))
     = 12 / 100"
  by code_simp

subsection \<open>Running twice\<close>

lemma same_attribute_refl: "same_attribute a a"
  by (simp add: same_attribute_def)

lemma same_attribute_trans:
  "same_attribute a b \<Longrightarrow> same_attribute b c \<Longrightarrow> same_attribute a c"
  unfolding same_attribute_def
  by (metis Attribute.surjective Attribute.update_convs(4) Attribute.select_convs(3))

lemma same_inputs_refl: "same_inputs bs bs"
  by (simp add: same_inputs_def option.rel_refl same_attribute_refl)

lemma same_inputs_trans: "same_inputs a b \<Longrightarrow> same_inputs b c \<Longrightarrow> same_inputs a c"
  unfolding same_inputs_def
proof
  fix k
  assume ab: "\<forall>k. rel_option same_attribute (find_attribute_by_id a k) (find_attribute_by_id b k)"
    and bc: "\<forall>k. rel_option same_attribute (find_attribute_by_id b k) (find_attribute_by_id c k)"
  from ab[rule_format, of k] bc[rule_format, of k]
  show "rel_option same_attribute (find_attribute_by_id a k) (find_attribute_by_id c k)"
    by (cases "find_attribute_by_id a k"; cases "find_attribute_by_id b k";
        cases "find_attribute_by_id c k") (auto intro: same_attribute_trans)
qed

lemma calculate_same_attribute:
  "same_attribute a a' \<Longrightarrow> attribute_type a \<noteq> INPUT \<Longrightarrow>
   fst (calculate a' ctx) = fst (calculate a ctx) \<and>
   same_attribute (snd (calculate a ctx)) (snd (calculate a' ctx)) \<and>
   same_attribute a (snd (calculate a ctx))"
proof -
  assume s: "same_attribute a a'" and t: "attribute_type a \<noteq> INPUT"
  from s have e: "a' = a\<lparr>attr_value := attr_value a'\<rparr>" by (simp add: same_attribute_def)
  have f: "attribute_type a' = attribute_type a" "calculation_logic a' = calculation_logic a"
    "dependencies a' = dependencies a" "metadata a' = metadata a" "attr_ident a' = attr_ident a"
    by (subst e, simp)+
  have dv: "dep_values a' ctx = dep_values a ctx" by (simp add: dep_values_def f)
  show ?thesis
  proof (cases "calculation_logic a")
    case None
    then show ?thesis using t f s by (simp add: calculate_def same_attribute_refl)
  next
    case (Some fn)
    show ?thesis
    proof (cases "fn (dep_values a ctx) (metadata a)")
      case (Inl err)
      then show ?thesis using t f s Some dv by (simp add: calculate_def same_attribute_refl)
    next
      case (Inr r)
      have "a'\<lparr>attr_value := Some r\<rparr> = a\<lparr>attr_value := Some r\<rparr>"
        by (subst e) simp
      then show ?thesis using t f Some dv Inr
        by (simp add: calculate_def same_attribute_def)
    qed
  qed
qed

lemma same_inputs_store:
  assumes "same_inputs bs bs'" "same_attribute a a'"
  shows "same_inputs (store_attribute bs k a) (store_attribute bs' k a')"
  unfolding same_inputs_def
proof
  fix k'
  from assms(1) have r: "rel_option same_attribute (find_attribute_by_id bs x) (find_attribute_by_id bs' x)" for x
    by (simp add: same_inputs_def)
  from r[of k] have n: "(find_attribute_by_id bs k = None) = (find_attribute_by_id bs' k = None)"
    by (cases "find_attribute_by_id bs k"; cases "find_attribute_by_id bs' k") auto
  show "rel_option same_attribute (find_attribute_by_id (store_attribute bs k a) k')
          (find_attribute_by_id (store_attribute bs' k a') k')"
    using r[of k'] n assms(2) by (auto simp: find_store_attribute)
qed

lemma same_inputs_store_left:
  assumes "find_attribute_by_id bs k = Some a" "same_attribute a a'"
  shows "same_inputs bs (store_attribute bs k a')"
  unfolding same_inputs_def
proof
  fix k'
  show "rel_option same_attribute (find_attribute_by_id bs k')
          (find_attribute_by_id (store_attribute bs k a') k')"
    using assms by (auto simp: find_store_attribute option.rel_refl same_attribute_refl)
qed

lemma calculate_one_same_inputs:
  assumes s: "same_inputs bs bs'"
    and c: "calculate_one (bs, vals, ctx) k = (bs2, vals2, ctx2)"
  shows "\<exists>bs2'. calculate_one (bs', vals, ctx) k = (bs2', vals2, ctx2) \<and> same_inputs bs2 bs2'"
    and "same_inputs bs bs2"
proof -
  from s have r: "rel_option same_attribute (find_attribute_by_id bs k) (find_attribute_by_id bs' k)"
    by (simp add: same_inputs_def)
  show "\<exists>bs2'. calculate_one (bs', vals, ctx) k = (bs2', vals2, ctx2) \<and> same_inputs bs2 bs2'"
   and "same_inputs bs bs2"
  proof (atomize (full), cases "find_attribute_by_id bs k")
    case None
    with r have "find_attribute_by_id bs' k = None"
      by (cases "find_attribute_by_id bs' k") auto
    with None c s show "(\<exists>bs2'. calculate_one (bs', vals, ctx) k = (bs2', vals2, ctx2) \<and>
        same_inputs bs2 bs2') \<and> same_inputs bs bs2"
      by (auto simp: calculate_one_def same_inputs_refl)
  next
    case (Some a)
    with r obtain a' where a': "find_attribute_by_id bs' k = Some a'" "same_attribute a a'"
      by (cases "find_attribute_by_id bs' k") auto
    show "(\<exists>bs2'. calculate_one (bs', vals, ctx) k = (bs2', vals2, ctx2) \<and>
        same_inputs bs2 bs2') \<and> same_inputs bs bs2"
    proof (cases "attribute_type a = INPUT")
      case True
      then have "a' = a" using a'(2) by (simp add: same_attribute_def)
      then show ?thesis using Some a' True c s by (auto simp: calculate_one_def same_inputs_refl)
    next
      case False
      have t': "attribute_type a' \<noteq> INPUT"
        using a'(2) False by (metis Attribute.select_convs(3) Attribute.surjective
            Attribute.update_convs(4) same_attribute_def)
      have d': "dependencies a' = dependencies a"
        using a'(2) by (metis Attribute.select_convs(5) Attribute.surjective
            Attribute.update_convs(4) same_attribute_def)
      let ?ctx' = "fill_missing ctx (missing_deps ctx (dependencies a))"
      note cs = calculate_same_attribute[OF a'(2) False, of ?ctx']
      obtain res a2 where ca: "calculate a ?ctx' = (res, a2)" by (cases "calculate a ?ctx'") auto
      obtain res' a2' where ca': "calculate a' ?ctx' = (res', a2')" by (cases "calculate a' ?ctx'") auto
      from cs ca ca' have eq: "res' = res" and sa: "same_attribute a2 a2'" and sl: "same_attribute a a2"
        by simp_all
      show ?thesis
      proof (cases res)
        case (Inl e)
        then show ?thesis using Some a' False t' d' c s ca ca' eq
          by (auto simp: calculate_one_def Let_def same_inputs_refl)
      next
        case (Inr v)
        have "same_inputs (store_attribute bs k a2) (store_attribute bs' k a2')"
          using same_inputs_store[OF s sa] .
        moreover have "same_inputs bs (store_attribute bs k a2)"
          using same_inputs_store_left[OF Some sl] .
        ultimately show ?thesis using Inr Some a' False t' d' c ca ca' eq
          by (auto simp: calculate_one_def Let_def same_inputs_refl)
      qed
    qed
  qed
qed

lemma calculate_loop_same_inputs:
  "same_inputs bs bs' \<Longrightarrow> foldl calculate_one (bs, vals, ctx) ks = (bs2, vals2, ctx2) \<Longrightarrow>
   (\<exists>bs2'. foldl calculate_one (bs', vals, ctx) ks = (bs2', vals2, ctx2) \<and> same_inputs bs2 bs2') \<and>
   same_inputs bs bs2"
proof (induction ks arbitrary: bs bs' vals ctx)
  case Nil
  then show ?case by (auto simp: same_inputs_refl)
next
  case (Cons k ks)
  obtain b1 v1 c1 where s1: "calculate_one (bs, vals, ctx) k = (b1, v1, c1)"
    by (rule prod_cases3)
  from calculate_one_same_inputs[OF Cons.prems(1) s1]
  obtain b1' where s1': "calculate_one (bs', vals, ctx) k = (b1', v1, c1)" "same_inputs b1 b1'"
    and l: "same_inputs bs b1" by blast
  have rest: "foldl calculate_one (b1, v1, c1) ks = (bs2, vals2, ctx2)"
    using Cons.prems(2) s1 by simp
  from Cons.IH[OF s1'(2) rest]
  obtain bs2' where "foldl calculate_one (b1', v1, c1) ks = (bs2', vals2, ctx2)" "same_inputs bs2 bs2'"
    and "same_inputs b1 bs2" by blast
  then show ?case using s1' l by (auto intro: same_inputs_trans)
qed

lemma overrides_again:
  assumes "same_inputs (foldl apply_override bs ovs) bs4"
  shows "same_inputs (foldl apply_override bs ovs) (foldl apply_override bs4 ovs)"
  unfolding same_inputs_def
proof
  fix k
  let ?ov = "\<lambda>a. case map_of (rev ovs) k of None \<Rightarrow> a | Some v \<Rightarrow> a\<lparr>attr_value := v\<rparr>"
  from assms have r: "rel_option same_attribute
       (find_attribute_by_id (foldl apply_override bs ovs) k) (find_attribute_by_id bs4 k)"
    by (simp add: same_inputs_def)
  show "rel_option same_attribute (find_attribute_by_id (foldl apply_override bs ovs) k)
          (find_attribute_by_id (foldl apply_override bs4 ovs) k)"
  proof (cases "find_attribute_by_id bs k")
    case None
    then have "find_attribute_by_id (foldl apply_override bs ovs) k = None"
      by (simp add: find_apply_overrides)
    with r have "find_attribute_by_id bs4 k = None"
      by (cases "find_attribute_by_id bs4 k") auto
    then show ?thesis using None by (simp add: find_apply_overrides)
  next
    case (Some a0)
    then have f1: "find_attribute_by_id (foldl apply_override bs ovs) k = Some (?ov a0)"
      by (simp add: find_apply_overrides)
    with r obtain a4 where a4: "find_attribute_by_id bs4 k = Some a4" "same_attribute (?ov a0) a4"
      by (cases "find_attribute_by_id bs4 k") auto
    have f4: "find_attribute_by_id (foldl apply_override bs4 ovs) k = Some (?ov a4)"
      using a4(1) by (simp add: find_apply_overrides)
    have "same_attribute (?ov a0) (?ov a4)"
    proof (cases "map_of (rev ovs) k")
      case None
      then show ?thesis using a4(2) by simp
    next
      case (Some v)
      from a4(2) have "a4 = (a0\<lparr>attr_value := v\<rparr>)\<lparr>attr_value := attr_value a4\<rparr>"
        using Some by (simp add: same_attribute_def)
      then have "a4\<lparr>attr_value := v\<rparr> = a0\<lparr>attr_value := v\<rparr>"
        by (metis Attribute.update_convs(4) Attribute.surjective)
      then show ?thesis using Some by (simp add: same_attribute_refl)
    qed
    then show ?thesis using f1 f4 by simp
  qed
qed

lemma run_simulation_acyclic:
  assumes "find_cycles (dependency_graph sim) = Inr []"
  shows "result_calculated_values (snd (run_simulation sim)) =
           Some (case topological_sort (dependency_graph sim) of
                   Inl e \<Rightarrow> []
                 | Inr order \<Rightarrow>
                     fst (snd (foldl calculate_one
                       (foldl apply_override (blocks sim) (scenario_overrides sim), [], Map.empty)
                       order)))"
    and "blocks (fst (run_simulation sim)) =
           (case topological_sort (dependency_graph sim) of
              Inl e \<Rightarrow> foldl apply_override (blocks sim) (scenario_overrides sim)
            | Inr order \<Rightarrow>
                fst (foldl calculate_one
                  (foldl apply_override (blocks sim) (scenario_overrides sim), [], Map.empty)
                  order))"
    and "dependency_graph (fst (run_simulation sim)) = dependency_graph sim"
    and "scenario_overrides (fst (run_simulation sim)) = scenario_overrides sim"
  using assms
  by (auto simp: run_simulation_def workflow_def workflow_from_detect_cycles_def
        initialize_simulation_def initial_state_def detect_cycles_def
        route_after_cycle_detection_def calculate_attributes_def validate_results_def Let_def
      split: sum.splits prod.splits)

text \<open>
  Claim C9, as amended. For a model in which \<open>find_cycles\<close> detects no cycle, and any
  overrides, a second \<open>run_simulation\<close> on the simulation that the first one left
  behind returns the same \<open>calculated_values\<close> as the first.
\<close>

theorem acyclic_runs_repeat:
  "find_cycles (dependency_graph sim) = Inr [] \<Longrightarrow>
   result_calculated_values (snd (run_simulation (fst (run_simulation sim))))
     = result_calculated_values (snd (run_simulation sim))"
proof -
  assume fc: "find_cycles (dependency_graph sim) = Inr []"
  let ?g = "dependency_graph sim"
  let ?sim' = "fst (run_simulation sim)"
  let ?bs1 = "foldl apply_override (blocks sim) (scenario_overrides sim)"
  have g': "dependency_graph ?sim' = ?g" and o': "scenario_overrides ?sim' = scenario_overrides sim"
    using run_simulation_acyclic(3,4)[OF fc] by simp_all
  have fc': "find_cycles (dependency_graph ?sim') = Inr []" using fc g' by simp
  show ?thesis
  proof (cases "topological_sort ?g")
    case (Inl e)
    then show ?thesis
      using run_simulation_acyclic(1)[OF fc] run_simulation_acyclic(1)[OF fc'] g' by simp
  next
    case (Inr order)
    obtain bs4 vals ctx where run1: "foldl calculate_one (?bs1, [], Map.empty) order = (bs4, vals, ctx)"
      by (rule prod_cases3)
    have b': "blocks ?sim' = bs4" using run_simulation_acyclic(2)[OF fc] Inr run1 by simp
    have "same_inputs ?bs1 bs4"
      using calculate_loop_same_inputs[OF same_inputs_refl run1] by blast
    then have "same_inputs ?bs1 (foldl apply_override bs4 (scenario_overrides sim))"
      by (rule overrides_again)
    from calculate_loop_same_inputs[OF this run1]
    obtain bs5 where run2: "foldl calculate_one
        (foldl apply_override bs4 (scenario_overrides sim), [], Map.empty) order = (bs5, vals, ctx)"
      by blast
    have v1: "result_calculated_values (snd (run_simulation sim)) = Some vals"
      using run_simulation_acyclic(1)[OF fc] Inr run1 by simp
    have v2: "result_calculated_values (snd (run_simulation ?sim')) = Some vals"
      using run_simulation_acyclic(1)[OF fc'] Inr run2 g' o' b' by simp
    show ?thesis using v1 v2 by simp
  qed
qed

theorem acyclic_runs_repeat_witness:
  "find_cycles (dependency_graph (set_scenario_override ex_simple_sim ''input_a'' (Some 7))) = Inr [] \<and>
   result_calculated_values (snd (run_simulation
       (set_scenario_override ex_simple_sim ''input_a'' (Some 7))))
     = Some [(''input_a'', Some 7), (''input_b'', Some 20), (''output_c'', Some 27)] \<and>
   result_calculated_values (snd (run_simulation (fst (run_simulation
       (set_scenario_override ex_simple_sim ''input_a'' (Some 7))))))
     = Some [(''input_a'', Some 7), (''input_b'', Some 20), (''output_c'', Some 27)]"
proof -
  have a: "find_cycles (dependency_graph (set_scenario_override ex_simple_sim ''input_a'' (Some 7))) = Inr []"
    by code_simp
  have b: "result_calculated_values (snd (run_simulation
       (set_scenario_override ex_simple_sim ''input_a'' (Some 7))))
     = Some [(''input_a'', Some 7), (''input_b'', Some 20), (''output_c'', Some 27)]"
    by code_simp
  from acyclic_runs_repeat[OF a] a b show ?thesis by simp
qed

text \<open>
  The claim as stated covers every model. On the cyclic test model the first run seeds
  both attributes with 100 and stops at 107.811 and 98.01; the second run finds these
  values in the attributes, does not seed, iterates from them and returns 106.73289 and
  97.0299.
\<close>

theorem successive_runs_differ_counterexample:
  "result_calculated_values (snd (run_simulation ex_cycle_sim))
     = Some [(''attr_a'', Some (107811 / 1000)), (''attr_b'', Some (9801 / 100))] \<and>
   result_calculated_values (snd (run_simulation (fst (run_simulation ex_cycle_sim))))
     = Some [(''attr_a'', Some (10673289 / 100000)), (''attr_b'', Some (970299 / 10000))] \<and>
   scenario_overrides (fst (run_simulation ex_cycle_sim)) = scenario_overrides ex_cycle_sim"
  by code_simp

end
